theory Spec2Isabelle
  imports Complex_Main "HOL-Library.Log_Nat"
begin

section \<open>Python values used by steam\_sales.py\<close>

subsection \<open>Text\<close>

text \<open>
  A Python \<open>str\<close> is a sequence of Unicode code points, so text is a list of code
  points. The currency glyph of the source's patterns is U+20BA, the non-breaking space
  U+00A0. \<open>ascii\<close> turns an ASCII literal into text.

  Digits are the ASCII digits \<open>0\<close> to \<open>9\<close>. Python's \<open>\d\<close>, \<open>int\<close>, \<open>float\<close> and
  \<open>isdigit\<close> also accept the other decimal digits of Unicode, with the same values; those
  are left out of the model.
\<close>

type_synonym pystr = "int list"

definition ascii :: "string \<Rightarrow> pystr" where
  "ascii s = map of_char s"

definition lira :: int where
  "lira = 8378"

definition nbsp :: int where
  "nbsp = 160"

definition is_digit :: "int \<Rightarrow> bool" where
  "is_digit c = (48 \<le> c \<and> c \<le> 57)"

text \<open>The code points for which \<open>str.isspace\<close> holds; \<open>\s\<close> and \<open>strip\<close> use the same set.\<close>

definition is_space :: "int \<Rightarrow> bool" where
  "is_space c = ((9 \<le> c \<and> c \<le> 13) \<or> (28 \<le> c \<and> c \<le> 32) \<or> c = 133 \<or> c = 160 \<or> c = 5760
     \<or> (8192 \<le> c \<and> c \<le> 8202) \<or> c = 8232 \<or> c = 8233 \<or> c = 8239 \<or> c = 8287 \<or> c = 12288)"

definition strip :: "pystr \<Rightarrow> pystr" where
  "strip s = rev (dropWhile is_space (rev (dropWhile is_space s)))"

text \<open>\<open>s.replace(a, b)\<close> for one-character \<open>a\<close>; \<open>b\<close> is any text (empty to delete).\<close>

definition replace_char :: "int \<Rightarrow> pystr \<Rightarrow> pystr \<Rightarrow> pystr" where
  "replace_char a b s = concat (map (\<lambda>c. if c = a then b else [c]) s)"

fun starts_with :: "pystr \<Rightarrow> pystr \<Rightarrow> bool" where
  "starts_with [] s = True"
| "starts_with (p # ps) [] = False"
| "starts_with (p # ps) (c # cs) = (p = c \<and> starts_with ps cs)"

text \<open>\<open>p in s\<close> on text.\<close>

fun contains :: "pystr \<Rightarrow> pystr \<Rightarrow> bool" where
  "contains p [] = (p = [])"
| "contains p (c # cs) = (starts_with p (c # cs) \<or> contains p cs)"

text \<open>
  \<open>s.split(sep)\<close> for a non-empty separator: the pieces between the non-overlapping
  occurrences of \<open>sep\<close>, found from the left. \<open>skip\<close> counts the characters of an
  occurrence still to be passed over.
\<close>

fun split_go :: "pystr \<Rightarrow> nat \<Rightarrow> pystr \<Rightarrow> pystr \<Rightarrow> pystr list" where
  "split_go sep skip acc [] = [rev acc]"
| "split_go sep skip acc (c # cs) =
     (if 0 < skip then split_go sep (skip - 1) acc cs
      else if starts_with sep (c # cs) then rev acc # split_go sep (length sep - 1) [] cs
      else split_go sep 0 (c # acc) cs)"

definition split :: "pystr \<Rightarrow> pystr \<Rightarrow> pystr list" where
  "split sep s = split_go sep 0 [] s"

definition isdigit :: "pystr \<Rightarrow> bool" where
  "isdigit s = (s \<noteq> [] \<and> list_all is_digit s)"

definition digit_val :: "int \<Rightarrow> int" where
  "digit_val c = c - 48"

definition digits_val :: "pystr \<Rightarrow> int" where
  "digits_val ds = foldl (\<lambda>n c. 10 * n + digit_val c) 0 ds"

subsection \<open>Exceptions\<close>

datatype exn = ValueError | IndexError | ZeroDivisionError | OverflowError | TypeError

subsection \<open>Floats\<close>

text \<open>
  A Python \<open>float\<close> is an IEEE 754 binary64 number: a finite value (a rational with a
  53-bit significand and an exponent in range), an infinity or a NaN. The sign of zero is
  not kept: the source never prints a zero float nor divides by one without raising.

  \<open>rnd\<close> is rounding to nearest, ties to even: the quantum of a value with
  \<open>2 ^ e \<le> |q| < 2 ^ (e + 1)\<close> is \<open>2 ^ (e - 52)\<close>, and \<open>2 ^ (- 1074)\<close> in the
  subnormal range. A magnitude that rounds to \<open>2 ^ 1024\<close> or more overflows: with
  the rounded significand \<open>n\<close> and the quantum \<open>2 ^ k\<close>, that is
  \<open>2 ^ (1024 - k) \<le> n\<close>, so the bit length of \<open>n\<close> exceeds \<open>1024 - k\<close>.
\<close>

datatype dbl = Fin rat | PInf | NInf | NaN

definition pow2 :: "int \<Rightarrow> rat" where
  "pow2 e = (if 0 \<le> e then 2 ^ nat e else 1 / 2 ^ nat (- e))"

definition round_half_even :: "rat \<Rightarrow> int" where
  "round_half_even x =
     (let f = \<lfloor>x\<rfloor>; r = x - of_int f
      in if r < 1 / 2 then f else if 1 / 2 < r then f + 1 else if even f then f else f + 1)"

text \<open>For \<open>0 < q\<close>, the exponent \<open>e\<close> with \<open>2 ^ e \<le> q < 2 ^ (e + 1)\<close>.\<close>

definition ilog2 :: "rat \<Rightarrow> int" where
  "ilog2 q =
     (let e0 = bitlen (fst (quotient_of q)) - bitlen (snd (quotient_of q))
      in if q < pow2 e0 then e0 - 1 else e0)"

definition rnd :: "rat \<Rightarrow> dbl" where
  "rnd q =
     (if q = 0 then Fin 0
      else
        let a = \<bar>q\<bar>;
            k = max (ilog2 a) (- 1022) - 52;
            n = round_half_even (a / pow2 k)
        in if 1024 < k + bitlen n then (if q < 0 then NInf else PInf)
           else Fin (if q < 0 then - (of_int n * pow2 k) else of_int n * pow2 k))"

definition dsgn :: "dbl \<Rightarrow> int" where
  "dsgn x = (case x of Fin a \<Rightarrow> sgn \<lfloor>sgn a\<rfloor> | PInf \<Rightarrow> 1 | NInf \<Rightarrow> - 1 | NaN \<Rightarrow> 0)"

definition fmul :: "dbl \<Rightarrow> dbl \<Rightarrow> dbl" where
  "fmul x y =
     (case (x, y) of
        (Fin a, Fin b) \<Rightarrow> rnd (a * b)
      | _ \<Rightarrow> if x = NaN \<or> y = NaN \<or> dsgn x * dsgn y = 0 then NaN
             else if 0 < dsgn x * dsgn y then PInf else NInf)"

definition fsub :: "dbl \<Rightarrow> dbl \<Rightarrow> dbl" where
  "fsub x y =
     (case (x, y) of
        (Fin a, Fin b) \<Rightarrow> rnd (a - b)
      | (Fin a, PInf) \<Rightarrow> NInf
      | (Fin a, NInf) \<Rightarrow> PInf
      | (PInf, Fin b) \<Rightarrow> PInf
      | (PInf, NInf) \<Rightarrow> PInf
      | (NInf, Fin b) \<Rightarrow> NInf
      | (NInf, PInf) \<Rightarrow> NInf
      | _ \<Rightarrow> NaN)"

text \<open>Python raises on a zero divisor before looking at the dividend.\<close>

definition fdiv :: "dbl \<Rightarrow> dbl \<Rightarrow> exn + dbl" where
  "fdiv x y =
     (if y = Fin 0 then Inl ZeroDivisionError
      else Inr (case (x, y) of
        (Fin a, Fin b) \<Rightarrow> rnd (a / b)
      | (Fin a, PInf) \<Rightarrow> Fin 0
      | (Fin a, NInf) \<Rightarrow> Fin 0
      | (PInf, Fin b) \<Rightarrow> (if 0 < b then PInf else NInf)
      | (NInf, Fin b) \<Rightarrow> (if 0 < b then NInf else PInf)
      | _ \<Rightarrow> NaN))"

subsection \<open>Numbers: \<open>int\<close> or \<open>float\<close>\<close>

text \<open>
  The price variables of the source hold an \<open>int\<close> (the initial \<open>0\<close>, the default
  \<open>999\<close>, a value of the detail lookup) or a \<open>float\<close> (a parsed or derived price), so
  a number is one or the other. Mixed arithmetic converts the \<open>int\<close> to a \<open>float\<close>
  first, which raises \<open>OverflowError\<close> when it is out of range; mixed comparison is
  exact.
\<close>

datatype pynum = I int | F dbl

definition float_of_int :: "int \<Rightarrow> exn + dbl" where
  "float_of_int n = (case rnd (of_int n) of Fin q \<Rightarrow> Inr (Fin q) | _ \<Rightarrow> Inl OverflowError)"

definition to_float :: "pynum \<Rightarrow> exn + dbl" where
  "to_float x = (case x of I n \<Rightarrow> float_of_int n | F d \<Rightarrow> Inr d)"

definition num_mul :: "pynum \<Rightarrow> pynum \<Rightarrow> exn + pynum" where
  "num_mul x y =
     (case (x, y) of
        (I a, I b) \<Rightarrow> Inr (I (a * b))
      | _ \<Rightarrow> (case to_float x of Inl e \<Rightarrow> Inl e
              | Inr a \<Rightarrow> (case to_float y of Inl e \<Rightarrow> Inl e | Inr b \<Rightarrow> Inr (F (fmul a b)))))"

definition num_sub :: "pynum \<Rightarrow> pynum \<Rightarrow> exn + pynum" where
  "num_sub x y =
     (case (x, y) of
        (I a, I b) \<Rightarrow> Inr (I (a - b))
      | _ \<Rightarrow> (case to_float x of Inl e \<Rightarrow> Inl e
              | Inr a \<Rightarrow> (case to_float y of Inl e \<Rightarrow> Inl e | Inr b \<Rightarrow> Inr (F (fsub a b)))))"

text \<open>
  True division \<open>x / y\<close>. On two \<open>int\<close>s the quotient is rounded once, and a quotient
  out of range raises \<open>OverflowError\<close>.
\<close>

definition num_div :: "pynum \<Rightarrow> pynum \<Rightarrow> exn + pynum" where
  "num_div x y =
     (case (x, y) of
        (I a, I b) \<Rightarrow>
          (if b = 0 then Inl ZeroDivisionError
           else (case rnd (of_int a / of_int b) of Fin q \<Rightarrow> Inr (F (Fin q)) | _ \<Rightarrow> Inl OverflowError))
      | _ \<Rightarrow> (case to_float x of Inl e \<Rightarrow> Inl e
              | Inr a \<Rightarrow> (case to_float y of Inl e \<Rightarrow> Inl e
                  | Inr b \<Rightarrow> (case fdiv a b of Inl e \<Rightarrow> Inl e | Inr d \<Rightarrow> Inr (F d)))))"

text \<open>Comparison with an \<open>int\<close> constant, exact; every comparison with a NaN is false.\<close>

definition num_lt :: "pynum \<Rightarrow> int \<Rightarrow> bool" where
  "num_lt x k =
     (case x of I a \<Rightarrow> a < k | F (Fin q) \<Rightarrow> q < of_int k | F NInf \<Rightarrow> True | F _ \<Rightarrow> False)"

definition num_gt :: "pynum \<Rightarrow> int \<Rightarrow> bool" where
  "num_gt x k =
     (case x of I a \<Rightarrow> k < a | F (Fin q) \<Rightarrow> of_int k < q | F PInf \<Rightarrow> True | F _ \<Rightarrow> False)"

definition num_eq :: "pynum \<Rightarrow> int \<Rightarrow> bool" where
  "num_eq x k = (case x of I a \<Rightarrow> a = k | F (Fin q) \<Rightarrow> q = of_int k | F _ \<Rightarrow> False)"

definition num_le :: "pynum \<Rightarrow> int \<Rightarrow> bool" where
  "num_le x k = (num_lt x k \<or> num_eq x k)"


text \<open>\<open>int(x)\<close>: truncation towards zero; an infinity or a NaN raises.\<close>

definition trunc_rat :: "rat \<Rightarrow> int" where
  "trunc_rat q = (if 0 \<le> q then \<lfloor>q\<rfloor> else - \<lfloor>- q\<rfloor>)"

definition int_of_num :: "pynum \<Rightarrow> exn + int" where
  "int_of_num x =
     (case x of I a \<Rightarrow> Inr a | F (Fin q) \<Rightarrow> Inr (trunc_rat q)
      | F NaN \<Rightarrow> Inl ValueError | F _ \<Rightarrow> Inl OverflowError)"

subsection \<open>Parsing numbers\<close>

text \<open>
  \<open>int(s)\<close> on text, base ten: surrounding whitespace is dropped, a sign may lead, and
  single underscores may separate digits. \<open>None\<close> is \<open>ValueError\<close>. The limit that
  newer Python versions put on the number of digits is left out.
\<close>

fun digits_us :: "pystr \<Rightarrow> pystr option" where
  "digits_us [] = None"
| "digits_us [c] = (if is_digit c then Some [c] else None)"
| "digits_us (c # d # cs) =
     (if \<not> is_digit c then None
      else if d = 95 then map_option (Cons c) (digits_us cs)
      else map_option (Cons c) (digits_us (d # cs)))"

definition int_of_str :: "pystr \<Rightarrow> int option" where
  "int_of_str s =
     (case strip s of
        [] \<Rightarrow> None
      | c # cs \<Rightarrow>
          if c = 45 then map_option (\<lambda>ds. - digits_val ds) (digits_us cs)
          else if c = 43 then map_option digits_val (digits_us cs)
          else map_option digits_val (digits_us (c # cs)))"

text \<open>
  \<open>float(s)\<close> on the tokens the price patterns produce, \<open>digits\<close> or
  \<open>digits.digits\<close>: the decimal value, rounded once. Any other text is \<open>None\<close>, the
  \<open>ValueError\<close> the source catches; the source passes no other text.
\<close>

definition float_of_decimal :: "pystr \<Rightarrow> dbl option" where
  "float_of_decimal s =
     (let ip = takeWhile is_digit s; r = dropWhile is_digit s
      in if ip = [] then None
         else (case r of
             [] \<Rightarrow> Some (rnd (of_int (digits_val ip)))
           | c # fp \<Rightarrow>
               if c = 46 \<and> fp \<noteq> [] \<and> list_all is_digit fp
               then Some (rnd (of_int (digits_val (ip @ fp)) / 10 ^ length fp))
               else None))"

subsection \<open>The two price patterns\<close>

text \<open>
  \<open>re.findall\<close> with one group returns the group of every non-overlapping match, found
  from the left. A matcher, anchored at the start of its argument, gives the group and the
  length of the match; both patterns match at least one character.
\<close>

fun findall_go :: "(pystr \<Rightarrow> (pystr \<times> nat) option) \<Rightarrow> nat \<Rightarrow> pystr \<Rightarrow> pystr list" where
  "findall_go m skip [] = []"
| "findall_go m skip (c # cs) =
     (if 0 < skip then findall_go m (skip - 1) cs
      else (case m (c # cs) of
          None \<Rightarrow> findall_go m 0 cs
        | Some (g, n) \<Rightarrow> g # findall_go m (n - 1) cs))"

definition findall :: "(pystr \<Rightarrow> (pystr \<times> nat) option) \<Rightarrow> pystr \<Rightarrow> pystr list" where
  "findall m s = findall_go m 0 s"

text \<open>\<^verbatim>\<open>\d+(?:[.,]\d+)?\<close>, greedy.\<close>

definition match_number :: "pystr \<Rightarrow> (pystr \<times> nat) option" where
  "match_number s =
     (let d = takeWhile is_digit s; r = dropWhile is_digit s
      in if d = [] then None
         else (case r of
             [] \<Rightarrow> Some (d, length d)
           | c # r' \<Rightarrow>
               let d' = takeWhile is_digit r'
               in if (c = 46 \<or> c = 44) \<and> d' \<noteq> [] then Some (d @ c # d', length d + 1 + length d')
                  else Some (d, length d)))"

text \<open>\<^verbatim>\<open>(?:L\s*)?(\d+(?:[.,]\d+)?)(?:\s*L)?\<close> with \<open>L\<close> the currency glyph.\<close>

definition match_price_pattern :: "pystr \<Rightarrow> (pystr \<times> nat) option" where
  "match_price_pattern s =
     (let k = (case s of [] \<Rightarrow> 0 | c # t \<Rightarrow> if c = lira then 1 + length (takeWhile is_space t) else 0)
      in (case match_number (drop k s) of
          None \<Rightarrow> None
        | Some (g, n) \<Rightarrow>
            let r = drop (k + n) s; w = length (takeWhile is_space r)
            in (case drop w r of
                [] \<Rightarrow> Some (g, k + n)
              | c # _ \<Rightarrow> if c = lira then Some (g, k + n + w + 1) else Some (g, k + n))))"

text \<open>\<^verbatim>\<open>L\s*(\d+(?:[.,]\d+)?)\<close>.\<close>

definition match_lira_number :: "pystr \<Rightarrow> (pystr \<times> nat) option" where
  "match_lira_number s =
     (case s of
        [] \<Rightarrow> None
      | c # t \<Rightarrow>
          if c = lira
          then (let k = 1 + length (takeWhile is_space t)
                in map_option (\<lambda>(g, n). (g, k + n)) (match_number (drop k s)))
          else None)"

section \<open>The price parser\<close>

text \<open>
  \<open>extract_price_from_text\<close>. The \<open>try\<close> catches \<open>ValueError\<close> and \<open>IndexError\<close>
  and falls through to \<open>return 0\<close>; any other exception would leave the function.
\<close>

definition extract_price_from_text :: "pystr \<Rightarrow> exn + pynum" where
  "extract_price_from_text text =
     (if text = [] then Inr (I 0)
      else
        let text' = strip (replace_char nbsp [32] text);
            matches = findall match_price_pattern text'
        in (case matches of
            [] \<Rightarrow> Inr (I 0)
          | m # _ \<Rightarrow>
              (case float_of_decimal (replace_char 44 [46] m) of
                 None \<Rightarrow> Inr (I 0)
               | Some x \<Rightarrow>
                   (case num_mul (F x) (I 100) of
                      Inr v \<Rightarrow> Inr v
                    | Inl e \<Rightarrow> if e = ValueError \<or> e = IndexError then Inr (I 0) else Inl e))))"

section \<open>Parsed markup\<close>

text \<open>
  \<open>BeautifulSoup(html_content, 'html.parser')\<close> is a library call; the model takes the
  parser as a parameter \<open>parse\<close> and works on the tree it returns. A node is an element
  (tag name, attributes, children) or a text node; the document is the list of its
  top-level nodes. An element in the tree is kept with its ancestors, nearest first, since
  a selector and \<open>find_parent\<close> look upwards.
\<close>

datatype node = Elem pystr "(pystr \<times> pystr) list" "node list" | Text pystr

type_synonym located = "node list \<times> node"

fun tag_of :: "node \<Rightarrow> pystr" where
  "tag_of (Elem t a cs) = t"
| "tag_of (Text s) = []"

fun get_attr :: "node \<Rightarrow> pystr \<Rightarrow> pystr option" where
  "get_attr (Elem t a cs) k = map_of a k"
| "get_attr (Text s) k = None"

text \<open>\<open>el.text\<close>: the text nodes below the element, joined in document order.\<close>

fun text_of :: "node \<Rightarrow> pystr" where
  "text_of (Text s) = s"
| "text_of (Elem t a cs) = concat (map text_of cs)"

text \<open>The elements of a subtree in document order, the root of the subtree first.\<close>

fun elems :: "node list \<Rightarrow> node \<Rightarrow> located list" where
  "elems anc (Text s) = []"
| "elems anc (Elem t a cs) = (anc, Elem t a cs) # concat (map (elems (Elem t a cs # anc)) cs)"

fun descendants :: "located \<Rightarrow> located list" where
  "descendants (anc, Text s) = []"
| "descendants (anc, Elem t a cs) = concat (map (elems (Elem t a cs # anc)) cs)"

text \<open>The words of an attribute value; the \<open>class\<close> attribute is such a list.\<close>

fun words_go :: "pystr \<Rightarrow> pystr \<Rightarrow> pystr list" where
  "words_go acc [] = (if acc = [] then [] else [rev acc])"
| "words_go acc (c # cs) =
     (if is_space c then (if acc = [] then words_go [] cs else rev acc # words_go [] cs)
      else words_go (c # acc) cs)"

definition classes_of :: "node \<Rightarrow> pystr list" where
  "classes_of n = (case get_attr n (ascii ''class'') of None \<Rightarrow> [] | Some v \<Rightarrow> words_go [] v)"

subsection \<open>Selectors\<close>

text \<open>
  The CSS selectors of the source use a tag name, a class, an id or the presence of an
  attribute, joined into compounds, and the child and descendant combinators; a selector
  is a list of alternatives. \<open>select\<close> returns the matching descendants of its scope in
  document order, and a combinator may look at ancestors above the scope.
\<close>

datatype simple = Tag pystr | Class pystr | Ident pystr | HasAttr pystr

datatype csel = Compound "simple list" | Child csel "simple list" | Descendant csel "simple list"

fun matches_simple :: "node \<Rightarrow> simple \<Rightarrow> bool" where
  "matches_simple n (Tag t) = (tag_of n = t)"
| "matches_simple n (Class c) = (c \<in> set (classes_of n))"
| "matches_simple n (Ident i) = (get_attr n (ascii ''id'') = Some i)"
| "matches_simple n (HasAttr k) = (get_attr n k \<noteq> None)"

fun matches :: "csel \<Rightarrow> node list \<Rightarrow> node \<Rightarrow> bool"
  and matches_above :: "csel \<Rightarrow> node list \<Rightarrow> bool" where
  "matches (Compound ss) anc n = list_all (matches_simple n) ss"
| "matches (Child p ss) anc n =
     (list_all (matches_simple n) ss \<and> (case anc of [] \<Rightarrow> False | a # as \<Rightarrow> matches p as a))"
| "matches (Descendant p ss) anc n = (list_all (matches_simple n) ss \<and> matches_above p anc)"
| "matches_above p [] = False"
| "matches_above p (a # as) = (matches p as a \<or> matches_above p as)"

definition matches_any :: "csel list \<Rightarrow> located \<Rightarrow> bool" where
  "matches_any sel el = list_ex (\<lambda>s. matches s (fst el) (snd el)) sel"

definition select :: "csel list \<Rightarrow> located \<Rightarrow> located list" where
  "select sel scope = filter (matches_any sel) (descendants scope)"

definition select_one :: "csel list \<Rightarrow> located \<Rightarrow> located option" where
  "select_one sel scope = (case select sel scope of [] \<Rightarrow> None | el # _ \<Rightarrow> Some el)"

definition select_soup :: "csel list \<Rightarrow> node list \<Rightarrow> located list" where
  "select_soup sel soup = filter (matches_any sel) (concat (map (elems []) soup))"

text \<open>\<open>el.find_parent(t)\<close>: the nearest proper ancestor with tag \<open>t\<close>.\<close>

fun find_parent_in :: "pystr \<Rightarrow> node list \<Rightarrow> located option" where
  "find_parent_in t [] = None"
| "find_parent_in t (a # as) = (if tag_of a = t then Some (as, a) else find_parent_in t as)"

definition find_parent :: "pystr \<Rightarrow> located \<Rightarrow> located option" where
  "find_parent t el = find_parent_in t (fst el)"

section \<open>The item extractor\<close>

subsection \<open>Records and the detail lookup\<close>

text \<open>
  A record of the source is a \<open>dict\<close> with string keys; it is an association list in
  the order of the literal. Its values are strings and integers; \<open>None\<close> is a value of
  the dictionaries the reporter may be given.
\<close>

datatype pyval = VNone | VInt int | VStr pystr

type_synonym item = "(string \<times> pyval) list"

definition item_get :: "item \<Rightarrow> string \<Rightarrow> pyval option" where
  "item_get it k = map_of it k"

text \<open>
  \<open>fetch_game_details\<close> calls the store's API and is a parameter \<open>api\<close> of the model.
  Its result here is the \<open>price_overview\<close> object of the reply, \<open>None\<close> when the
  lookup fails or the reply has none. A field is \<open>None\<close> when the key is absent, and an
  integer otherwise, as the store sends it.
\<close>

record price_overview =
  po_final :: "int option"
  po_initial :: "int option"
  po_discount_percent :: "int option"

definition ebind :: "exn + 'a \<Rightarrow> ('a \<Rightarrow> exn + 'b) \<Rightarrow> exn + 'b" where
  "ebind x f = (case x of Inl e \<Rightarrow> Inl e | Inr v \<Rightarrow> f v)"

text \<open>The inner handlers of the source: \<open>except (ValueError, IndexError): pass\<close>.\<close>

definition caught :: "exn \<Rightarrow> bool" where
  "caught e = (e = ValueError \<or> e = IndexError)"

subsection \<open>The selectors of the source\<close>

definition cls :: "string \<Rightarrow> csel" where
  "cls c = Compound [Class (ascii c)]"

definition tag_cls :: "string \<Rightarrow> string \<Rightarrow> csel" where
  "tag_cls t c = Compound [Tag (ascii t), Class (ascii c)]"

text \<open>\<^verbatim>\<open>#search_resultsRows > a\<close>\<close>

definition sel_results_rows :: "csel list" where
  "sel_results_rows = [Child (Compound [Ident (ascii ''search_resultsRows'')]) [Tag (ascii ''a'')]]"

text \<open>\<^verbatim>\<open>.search_result_row\<close>\<close>

definition sel_result_row :: "csel list" where
  "sel_result_row = [cls ''search_result_row'']"

text \<open>\<^verbatim>\<open>[data-ds-appid]\<close>\<close>

definition sel_has_appid :: "csel list" where
  "sel_has_appid = [Compound [HasAttr (ascii ''data-ds-appid'')]]"

text \<open>\<^verbatim>\<open>div.responsive_search_name_combined\<close>\<close>

definition sel_name_combined :: "csel list" where
  "sel_name_combined = [tag_cls ''div'' ''responsive_search_name_combined'']"

text \<open>\<^verbatim>\<open>div.discount_pct\<close>\<close>

definition sel_div_discount_pct :: "csel list" where
  "sel_div_discount_pct = [tag_cls ''div'' ''discount_pct'']"

text \<open>
  \<^verbatim>\<open>.title\<close>, \<^verbatim>\<open>.responsive_search_name_combined .search_name\<close>, \<^verbatim>\<open>.search_name\<close>,
  \<^verbatim>\<open>span.title\<close>
\<close>

definition name_selectors :: "csel list list" where
  "name_selectors =
     [[cls ''title''],
      [Descendant (cls ''responsive_search_name_combined'') [Class (ascii ''search_name'')]],
      [cls ''search_name''],
      [tag_cls ''span'' ''title'']]"

text \<open>\<^verbatim>\<open>.discount_pct\<close>, \<^verbatim>\<open>.discount_block .discount_pct\<close>, \<^verbatim>\<open>.search_discount span\<close>\<close>

definition discount_selectors :: "csel list list" where
  "discount_selectors =
     [[cls ''discount_pct''],
      [Descendant (cls ''discount_block'') [Class (ascii ''discount_pct'')]],
      [Descendant (cls ''search_discount'') [Tag (ascii ''span'')]]]"

text \<open>\<^verbatim>\<open>.search_price\<close>, \<^verbatim>\<open>.discount_block\<close>, \<^verbatim>\<open>.discount_prices\<close>\<close>

definition container_selectors :: "csel list list" where
  "container_selectors = [[cls ''search_price''], [cls ''discount_block''], [cls ''discount_prices'']]"

text \<open>\<^verbatim>\<open>span.discount_original_price, span.original_price, strike\<close>\<close>

definition sel_strikethrough :: "csel list" where
  "sel_strikethrough =
     [tag_cls ''span'' ''discount_original_price'', tag_cls ''span'' ''original_price'',
      Compound [Tag (ascii ''strike'')]]"

text \<open>\<^verbatim>\<open>span.discount_final_price, .discount_price\<close>\<close>

definition sel_final_price :: "csel list" where
  "sel_final_price = [tag_cls ''span'' ''discount_final_price'', cls ''discount_price'']"

subsection \<open>Layout detection\<close>

text \<open>
  The last resort walks from every \<open>div.discount_pct\<close> up to its enclosing link and keeps
  a link once; \<open>parent not in game_rows\<close> compares elements by tag, attributes and
  content.
\<close>

fun link_parents :: "located list \<Rightarrow> located list \<Rightarrow> located list" where
  "link_parents rows [] = rows"
| "link_parents rows (sp # spans) =
     (case find_parent (ascii ''a'') sp of
        None \<Rightarrow> link_parents rows spans
      | Some parent \<Rightarrow>
          if snd parent \<in> set (map snd rows) then link_parents rows spans
          else link_parents (rows @ [parent]) spans)"

definition game_rows :: "node list \<Rightarrow> located list" where
  "game_rows soup =
     (let rows1 = select_soup sel_results_rows soup in
      if rows1 \<noteq> [] then rows1 else
      let rows2 = select_soup sel_result_row soup in
      if rows2 \<noteq> [] then rows2 else
      let rows3 = select_soup sel_has_appid soup in
      if rows3 \<noteq> [] then rows3 else
      let rows4 = select_soup sel_name_combined soup in
      if rows4 \<noteq> [] then rows4 else
      link_parents [] (select_soup sel_div_discount_pct soup))"

subsection \<open>The fields of one candidate\<close>

definition truthy :: "pystr option \<Rightarrow> bool" where
  "truthy v = (case v of None \<Rightarrow> False | Some s \<Rightarrow> s \<noteq> [])"

text \<open>The identifier; a result that is not \<open>truthy\<close> makes the loop \<open>continue\<close>.\<close>

definition resolve_app_id :: "node \<Rightarrow> exn + pystr option" where
  "resolve_app_id game =
     (let a1 = get_attr game (ascii ''data-ds-appid'');
          a2 = (if truthy a1 then a1 else get_attr game (ascii ''data-appid''))
      in if truthy a2 then Inr a2
         else
           let href = (case get_attr game (ascii ''href'') of None \<Rightarrow> [] | Some h \<Rightarrow> h)
           in if contains (ascii ''app/'') href
              then (case split (ascii ''app/'') href of
                  p0 # p1 # _ \<Rightarrow>
                    (case split (ascii ''/'') p1 of
                       m # _ \<Rightarrow> Inr (if m \<noteq> [] \<and> isdigit m then Some m else a2)
                     | [] \<Rightarrow> Inl IndexError)
                | _ \<Rightarrow> Inl IndexError)
              else Inr a2)"

fun extract_name :: "located \<Rightarrow> csel list list \<Rightarrow> pystr" where
  "extract_name game [] = ascii ''Unknown Game''"
| "extract_name game (sel # sels) =
     (case select_one sel game of
        None \<Rightarrow> extract_name game sels
      | Some el \<Rightarrow> strip (text_of (snd el)))"

text \<open>
  The discount: the first selector whose element has text that \<open>int\<close> accepts, once
  every \<open>-\<close> and \<open>%\<close> is removed; \<open>0\<close> when there is none.
\<close>

fun extract_discount :: "located \<Rightarrow> csel list list \<Rightarrow> int" where
  "extract_discount game [] = 0"
| "extract_discount game (sel # sels) =
     (case select_one sel game of
        None \<Rightarrow> extract_discount game sels
      | Some el \<Rightarrow>
          (case int_of_str (replace_char 37 [] (replace_char 45 [] (strip (text_of (snd el))))) of
             None \<Rightarrow> extract_discount game sels
           | Some d \<Rightarrow> d))"

fun find_container :: "located \<Rightarrow> csel list list \<Rightarrow> located option" where
  "find_container game [] = None"
| "find_container game (sel # sels) =
     (case select_one sel game of None \<Rightarrow> find_container game sels | Some c \<Rightarrow> Some c)"

text \<open>The structured prices of a container, each \<open>0\<close> when its element is missing.\<close>

definition structured_prices :: "located \<Rightarrow> exn + pynum \<times> pynum" where
  "structured_prices pc =
     ebind (case select_one sel_strikethrough pc of
              None \<Rightarrow> Inr (I 0)
            | Some el \<Rightarrow> extract_price_from_text (text_of (snd el)))
       (\<lambda>original_price.
          ebind (case select_one sel_final_price pc of
                   None \<Rightarrow> Inr (I 0)
                 | Some el \<Rightarrow> extract_price_from_text (text_of (snd el)))
            (\<lambda>final_price. Inr (original_price, final_price)))"

text \<open>\<open>float(t.replace(',', '.')) * 100\<close> on a token of the container's text.\<close>

definition token_price :: "pystr \<Rightarrow> exn + pynum" where
  "token_price t =
     (case float_of_decimal (replace_char 44 [46] t) of
        None \<Rightarrow> Inl ValueError
      | Some x \<Rightarrow> num_mul (F x) (I 100))"

text \<open>\<open>1 - discount_percent/100\<close>\<close>

definition one_minus :: "int \<Rightarrow> exn + pynum" where
  "one_minus d = ebind (num_div (I d) (I 100)) (\<lambda>r. num_sub (I 1) r)"

text \<open>\<open>original_price * (1 - discount_percent/100)\<close>\<close>

definition derive_final :: "pynum \<Rightarrow> int \<Rightarrow> exn + pynum" where
  "derive_final original_price d = ebind (one_minus d) (\<lambda>s. num_mul original_price s)"

text \<open>\<open>final_price / (1 - discount_percent/100)\<close>\<close>

definition derive_original :: "pynum \<Rightarrow> int \<Rightarrow> exn + pynum" where
  "derive_original final_price d = ebind (one_minus d) (\<lambda>s. num_div final_price s)"

text \<open>
  The fallback on the container's full text. An exception the inner handler catches
  leaves the prices assigned so far; any other leaves the candidate.
\<close>

definition text_prices :: "int \<Rightarrow> located \<Rightarrow> pynum \<times> pynum \<Rightarrow> exn + pynum \<times> pynum" where
  "text_prices d pc op =
     (let full_text = strip (text_of (snd pc));
          prices = findall match_lira_number full_text
      in (case prices of
          [] \<Rightarrow> Inr op
        | [p0] \<Rightarrow>
            (case token_price p0 of
               Inl e \<Rightarrow> if caught e then Inr op else Inl e
             | Inr final_price \<Rightarrow>
                 if 0 < d
                 then (case derive_original final_price d of
                     Inl e \<Rightarrow> if caught e then Inr (fst op, final_price) else Inl e
                   | Inr original_price \<Rightarrow> Inr (original_price, final_price))
                 else Inr (fst op, final_price))
        | p0 # p1 # _ \<Rightarrow>
            (case token_price p0 of
               Inl e \<Rightarrow> if caught e then Inr op else Inl e
             | Inr original_price \<Rightarrow>
                 (case token_price p1 of
                    Inl e \<Rightarrow> if caught e then Inr (original_price, snd op) else Inl e
                  | Inr final_price \<Rightarrow> Inr (original_price, final_price)))))"

definition page_prices :: "int \<Rightarrow> located \<Rightarrow> exn + pynum \<times> pynum" where
  "page_prices d game =
     (case find_container game container_selectors of
        None \<Rightarrow> Inr (I 0, I 0)
      | Some pc \<Rightarrow>
          ebind (structured_prices pc)
            (\<lambda>op. if num_eq (fst op) 0 \<or> num_eq (snd op) 0 then text_prices d pc op else Inr op))"

definition important_names :: "pystr list" where
  "important_names =
     [ascii ''Kingdom Come: Deliverance II'', ascii ''Elden Ring'', ascii ''Baldur's Gate 3'']"

text \<open>
  The detail lookup, for a recognised name or a discount above 50 when a price is still
  unresolved. It gives the discount and the two prices after the step.
\<close>

definition api_prices ::
  "(pystr \<Rightarrow> price_overview option) \<Rightarrow> pystr \<Rightarrow> pystr \<Rightarrow> int \<times> pynum \<times> pynum \<Rightarrow> int \<times> pynum \<times> pynum" where
  "api_prices api app_id name dop =
     (case dop of (d, original_price, final_price) \<Rightarrow>
        if (num_le original_price 0 \<or> num_le final_price 0) \<and> (name \<in> set important_names \<or> 50 < d)
        then (case api app_id of
            None \<Rightarrow> dop
          | Some price_data \<Rightarrow>
              let final' = (case po_final price_data of None \<Rightarrow> 0 | Some v \<Rightarrow> v);
                  original' = (case po_initial price_data of None \<Rightarrow> 0 | Some v \<Rightarrow> v);
                  api_discount = (case po_discount_percent price_data of None \<Rightarrow> 0 | Some v \<Rightarrow> v)
              in (if 0 < api_discount then api_discount else d, I original', I final'))
        else dop)"

text \<open>The two prices computed from each other when exactly one of them is \<open>0\<close>.\<close>

definition reconcile :: "int \<times> pynum \<times> pynum \<Rightarrow> exn + pynum \<times> pynum" where
  "reconcile dop =
     (case dop of (d, original_price, final_price) \<Rightarrow>
        if num_gt original_price 0 \<and> num_eq final_price 0 \<and> 0 < d
        then ebind (derive_final original_price d) (\<lambda>f. Inr (original_price, f))
        else if num_gt final_price 0 \<and> num_eq original_price 0 \<and> 0 < d
        then ebind (derive_original final_price d) (\<lambda>p. Inr (p, final_price))
        else Inr (original_price, final_price))"

text \<open>The defaults and the record; \<open>None\<close> when nothing is appended.\<close>

definition emit :: "pystr \<Rightarrow> pystr \<Rightarrow> int \<Rightarrow> pynum \<times> pynum \<Rightarrow> exn + item option" where
  "emit app_id name d op =
     (if 0 < d
      then
        let original_price = (if num_le (fst op) 0 then I 999 else fst op)
        in ebind (if num_le (snd op) 0 then derive_final original_price d else Inr (snd op))
             (\<lambda>final_price.
                ebind (int_of_num original_price)
                  (\<lambda>oi. ebind (int_of_num final_price)
                     (\<lambda>fi. Inr (Some [(''id'', VStr app_id), (''name'', VStr name),
                                       (''discount_percent'', VInt d),
                                       (''original_price'', VInt oi),
                                       (''final_price'', VInt fi)]))))
      else Inr None)"

text \<open>
  The body of the loop over the candidates. \<open>Inr None\<close> is a \<open>continue\<close>, \<open>Inl e\<close> an
  exception that reaches the handler around the body.
\<close>

definition extract_game :: "(pystr \<Rightarrow> price_overview option) \<Rightarrow> located \<Rightarrow> exn + item option" where
  "extract_game api game =
     ebind (resolve_app_id (snd game))
       (\<lambda>a. if \<not> truthy a then Inr None
            else
              let app_id = the a;
                  name = extract_name game name_selectors;
                  discount_percent = extract_discount game discount_selectors
              in if discount_percent \<le> 0 then Inr None
                 else
                   ebind (page_prices discount_percent game)
                     (\<lambda>op. case api_prices api app_id name (discount_percent, op) of
                        (d, op') \<Rightarrow> ebind (reconcile (d, op')) (\<lambda>op''. emit app_id name d op'')))"

subsection \<open>The page\<close>

definition site_error_marker :: pystr where
  "site_error_marker = ascii ''<title>Site Error</title>''"

text \<open>The handler around the body skips a candidate that raised.\<close>

definition collect :: "(pystr \<Rightarrow> price_overview option) \<Rightarrow> located list \<Rightarrow> item list" where
  "collect api rows =
     concat (map (\<lambda>game. case extract_game api game of Inr (Some it) \<Rightarrow> [it] | _ \<Rightarrow> []) rows)"

definition extract_games_from_store_page ::
  "(pystr \<Rightarrow> node list) \<Rightarrow> (pystr \<Rightarrow> price_overview option) \<Rightarrow> pystr option \<Rightarrow> item list" where
  "extract_games_from_store_page parse api html_content =
     (case html_content of
        None \<Rightarrow> []
      | Some h \<Rightarrow>
          if h = [] then []
          else if contains site_error_marker h then []
          else collect api (game_rows (parse h)))"

section \<open>The reporter\<close>

subsection \<open>Price formatting\<close>

function digits_of :: "int \<Rightarrow> pystr" where
  "digits_of n = (if n < 10 then [48 + n] else digits_of (n div 10) @ [48 + n mod 10])"
  by pat_completeness auto
termination
  by (relation "measure nat") auto

declare digits_of.simps [simp del]

text \<open>
  \<^verbatim>\<open>f"{price:.2f}"\<close> on a finite float: the decimal with two fractional digits nearest
  to the exact value, ties to even.
\<close>

definition format_2f :: "rat \<Rightarrow> pystr" where
  "format_2f q =
     (let m = round_half_even (\<bar>q\<bar> * 100)
      in (if q < 0 then [45] else []) @ digits_of (m div 100) @ [46]
           @ [48 + (m mod 100) div 10, 48 + (m mod 100) mod 10])"

definition default_price_text :: pystr where
  "default_price_text = ascii ''$9.99''"

text \<open>
  \<open>format_price\<close>. The comparison \<open>price_in_cents <= 0\<close> is outside the \<open>try\<close>, and
  on a string it raises \<open>TypeError\<close>; the \<open>try\<close> catches \<open>ValueError\<close> and
  \<open>TypeError\<close> only.
\<close>

definition format_price :: "pyval \<Rightarrow> exn + pystr" where
  "format_price price_in_cents =
     (case price_in_cents of
        VNone \<Rightarrow> Inr default_price_text
      | VStr s \<Rightarrow> Inl TypeError
      | VInt n \<Rightarrow>
          if n \<le> 0 then Inr default_price_text
          else (case ebind (float_of_int n) (\<lambda>x. fdiv x (Fin 100)) of
              Inl e \<Rightarrow> if e = ValueError \<or> e = TypeError then Inr default_price_text else Inl e
            | Inr (Fin q) \<Rightarrow> Inr (36 # format_2f q)
            | Inr PInf \<Rightarrow> Inr (ascii ''$inf'')
            | Inr NInf \<Rightarrow> Inr (ascii ''$-inf'')
            | Inr NaN \<Rightarrow> Inr (ascii ''$nan'')))"

subsection \<open>Sorting\<close>

text \<open>
  The reporter is given a list whose entries are dictionaries or \<open>None\<close>. An entry is
  kept when it is truthy (a non-empty dictionary) and has the key \<open>discount_percent\<close>.
\<close>

definition valid_item :: "item option \<Rightarrow> bool" where
  "valid_item x = (case x of None \<Rightarrow> False | Some it \<Rightarrow> it \<noteq> [] \<and> item_get it ''discount_percent'' \<noteq> None)"

text \<open>\<open>int(v)\<close> on a value of a dictionary.\<close>

definition int_of_val :: "pyval \<Rightarrow> exn + int" where
  "int_of_val v =
     (case v of
        VInt n \<Rightarrow> Inr n
      | VStr s \<Rightarrow> (case int_of_str s of None \<Rightarrow> Inl ValueError | Some n \<Rightarrow> Inr n)
      | VNone \<Rightarrow> Inl TypeError)"

text \<open>\<open>lambda x: int(x.get("discount_percent", 0))\<close>\<close>

definition discount_key :: "item \<Rightarrow> exn + int" where
  "discount_key it = int_of_val (case item_get it ''discount_percent'' of None \<Rightarrow> VInt 0 | Some v \<Rightarrow> v)"

text \<open>
  \<open>sorted(xs, key=f, reverse=True)\<close> computes the key of every element first, in order,
  so the first key that raises ends the call. The sort is stable; with \<open>reverse=True\<close>
  the list is reversed, sorted ascending and reversed again.
\<close>

fun keyed :: "('a \<Rightarrow> exn + int) \<Rightarrow> 'a list \<Rightarrow> exn + (int \<times> 'a) list" where
  "keyed f [] = Inr []"
| "keyed f (x # xs) =
     (case f x of
        Inl e \<Rightarrow> Inl e
      | Inr k \<Rightarrow> (case keyed f xs of Inl e \<Rightarrow> Inl e | Inr ks \<Rightarrow> Inr ((k, x) # ks)))"

definition sorted_reverse :: "('a \<Rightarrow> exn + int) \<Rightarrow> 'a list \<Rightarrow> exn + 'a list" where
  "sorted_reverse f xs =
     (case keyed f xs of
        Inl e \<Rightarrow> Inl e
      | Inr ks \<Rightarrow> Inr (map snd (rev (sort_key fst (rev ks)))))"

definition sort_items_by_discount :: "item option list \<Rightarrow> exn + item list" where
  "sort_items_by_discount items =
     (let valid_items = map the (filter valid_item items)
      in sorted_reverse discount_key valid_items)"

section \<open>The batch controller\<close>

text \<open>
  \<open>fetch_store_search_page\<close> is a parameter \<open>fetch\<close>: the markup of a page, or
  \<open>None\<close> when the request fails. The state of \<open>get_all_discounted_games\<close> is the
  page counter and the two lists; \<open>fetched\<close> is the log of the pages requested, in
  order. Printing, the progress bar, the pauses and \<open>displayed_ids\<close>, which only selects
  what is printed, are left out; they do not change what is returned.
\<close>

record state =
  page :: int
  all_items :: "item list"
  unique_items :: "item list"
  fetched :: "int list"

definition val_truthy :: "pyval option \<Rightarrow> bool" where
  "val_truthy v =
     (case v of None \<Rightarrow> False | Some VNone \<Rightarrow> False | Some (VInt n) \<Rightarrow> n \<noteq> 0 | Some (VStr s) \<Rightarrow> s \<noteq> [])"

text \<open>The loop that removes duplicates, with its set \<open>seen_ids\<close>.\<close>

fun dedup :: "pyval set \<Rightarrow> item list \<Rightarrow> item list" where
  "dedup seen_ids [] = []"
| "dedup seen_ids (it # its) =
     (let item_id = item_get it ''id''
      in if val_truthy item_id \<and> the item_id \<notin> seen_ids
         then it # dedup (insert (the item_id) seen_ids) its
         else dedup seen_ids its)"

text \<open>
  The \<open>for\<close> loop over one batch, with the number of iterations left. Both early exits
  set the page counter past \<open>max_pages\<close>.
\<close>

fun batch ::
  "(pystr \<Rightarrow> node list) \<Rightarrow> (pystr \<Rightarrow> price_overview option) \<Rightarrow> (int \<Rightarrow> pystr option) \<Rightarrow> int
     \<Rightarrow> nat \<Rightarrow> state \<Rightarrow> state" where
  "batch parse api fetch max_pages 0 st = st"
| "batch parse api fetch max_pages (Suc n) st =
     (if max_pages < page st then st
      else
        let html_content = fetch (page st);
            st1 = st\<lparr>fetched := fetched st @ [page st]\<rparr>
        in if html_content = None \<or> html_content = Some [] then st1\<lparr>page := max_pages + 1\<rparr>
           else
             let page_results = extract_games_from_store_page parse api html_content
             in if page_results = [] then st1\<lparr>page := max_pages + 1\<rparr>
                else batch parse api fetch max_pages n
                       (st1\<lparr>all_items := all_items st @ page_results, page := page st + 1\<rparr>))"

text \<open>
  The \<open>while\<close> loop. With \<open>results_interval \<le> 0\<close> a batch fetches nothing and the
  page counter never moves, so the loop may run forever: \<open>None\<close> is not returning.
\<close>

partial_function (option) batches ::
  "(pystr \<Rightarrow> node list) \<Rightarrow> (pystr \<Rightarrow> price_overview option) \<Rightarrow> (int \<Rightarrow> pystr option) \<Rightarrow> int
     \<Rightarrow> int \<Rightarrow> state \<Rightarrow> state option" where
  "batches parse api fetch max_pages results_interval st =
     (if page st \<le> max_pages
      then
        let st1 = batch parse api fetch max_pages (nat results_interval) st
        in batches parse api fetch max_pages results_interval
             (st1\<lparr>unique_items := dedup {} (all_items st1)\<rparr>)
      else Some st)"

definition initial_state :: state where
  "initial_state = \<lparr>page = 1, all_items = [], unique_items = [], fetched = []\<rparr>"

definition get_all_discounted_games ::
  "(pystr \<Rightarrow> node list) \<Rightarrow> (pystr \<Rightarrow> price_overview option) \<Rightarrow> (int \<Rightarrow> pystr option) \<Rightarrow> int
     \<Rightarrow> int \<Rightarrow> item list option" where
  "get_all_discounted_games parse api fetch max_pages results_interval =
     map_option unique_items (batches parse api fetch max_pages results_interval initial_state)"

subsection \<open>The fetch order in the words of the specification\<close>

definition page_items ::
  "(pystr \<Rightarrow> node list) \<Rightarrow> (pystr \<Rightarrow> price_overview option) \<Rightarrow> (int \<Rightarrow> pystr option) \<Rightarrow> int
     \<Rightarrow> item list" where
  "page_items parse api fetch p = extract_games_from_store_page parse api (fetch p)"

text \<open>
  The terminal conditions of the specification: a fetch failure (no markup returned), or a
  page yielding zero extracted items.
\<close>

definition terminal ::
  "(pystr \<Rightarrow> node list) \<Rightarrow> (pystr \<Rightarrow> price_overview option) \<Rightarrow> (int \<Rightarrow> pystr option) \<Rightarrow> int
     \<Rightarrow> bool" where
  "terminal parse api fetch p =
     (fetch p = None \<or> fetch p = Some [] \<or> page_items parse api fetch p = [])"

text \<open>
  The specification's run, with no batches: pages are fetched one at a time in increasing
  order from \<open>p\<close>, at most \<open>n\<close> of them, until a terminal condition. The result is
  the pages fetched and the items of the pages before the terminal one.
\<close>

fun sequential_fetch ::
  "(pystr \<Rightarrow> node list) \<Rightarrow> (pystr \<Rightarrow> price_overview option) \<Rightarrow> (int \<Rightarrow> pystr option) \<Rightarrow> nat
     \<Rightarrow> int \<Rightarrow> int list \<times> item list" where
  "sequential_fetch parse api fetch 0 p = ([], [])"
| "sequential_fetch parse api fetch (Suc n) p =
     (if terminal parse api fetch p then ([p], [])
      else (p # fst (sequential_fetch parse api fetch n (p + 1)),
            page_items parse api fetch p @ snd (sequential_fetch parse api fetch n (p + 1))))"

section \<open>Example pages\<close>

text \<open>
  A parsed page with one result: a link with \<open>data-ds-appid="100"\<close>, a discount badge
  and what else is given. The price container is a \<open>div.search_price\<close>.
\<close>

definition result_link :: "string \<Rightarrow> node list \<Rightarrow> node" where
  "result_link d cs =
     Elem (ascii ''a'') [(ascii ''data-ds-appid'', ascii ''100'')]
       (Elem (ascii ''div'') [(ascii ''class'', ascii ''discount_pct'')] [Text (ascii d)] # cs)"

definition price_box :: "node list \<Rightarrow> node" where
  "price_box cs = Elem (ascii ''div'') [(ascii ''class'', ascii ''search_price'')] cs"

definition price_span :: "string \<Rightarrow> pystr \<Rightarrow> node" where
  "price_span c t = Elem (ascii ''span'') [(ascii ''class'', ascii c)] [Text t]"

text \<open>Both prices in their own elements.\<close>

definition page_a :: node where
  "page_a = result_link ''-75%''
     [price_box [price_span ''discount_original_price'' (lira # ascii ''100,00''),
                 price_span ''discount_final_price'' (lira # ascii ''25,00'')]]"

text \<open>No element for the final price: it is bare text after the original price.\<close>

definition page_b :: node where
  "page_b = result_link ''-75%''
     [price_box [price_span ''discount_original_price'' (lira # ascii ''100,00''),
                 Text (32 # lira # ascii ''25,00'')]]"

text \<open>No price element at all: the container holds the two amounts as text.\<close>

definition page_b_text :: node where
  "page_b_text = result_link ''-75%'' [price_box [Text (lira # ascii ''100,00 '' @ lira # ascii ''25,00'')]]"

text \<open>The prices of \<open>page_a\<close> under other badges.\<close>

definition page_badge :: "string \<Rightarrow> node" where
  "page_badge d = result_link d
     [price_box [price_span ''discount_original_price'' (lira # ascii ''100,00''),
                 price_span ''discount_final_price'' (lira # ascii ''25,00'')]]"

text \<open>A title given away: 100 percent off, final price zero.\<close>

definition page_free :: node where
  "page_free = result_link ''-100%''
     [price_box [price_span ''discount_original_price'' (lira # ascii ''100,00''),
                 price_span ''discount_final_price'' (lira # ascii ''0,00'')]]"


text \<open>
  A store of three pages. The first has the result of \<open>page_a\<close>, the second has it
  again and another result with the same identifier, the third has no result.
\<close>

definition sample_fetch :: "int \<Rightarrow> pystr option" where
  "sample_fetch p =
     (if p = 1 then Some (ascii ''one'') else if p = 2 then Some (ascii ''two'')
      else if p = 3 then Some (ascii ''three'') else None)"

definition sample_parse :: "pystr \<Rightarrow> node list" where
  "sample_parse h =
     (if h = ascii ''one'' then [page_a] else if h = ascii ''two'' then [page_a, page_free] else [])"

definition record_100 :: "int \<Rightarrow> int \<Rightarrow> int \<Rightarrow> item" where
  "record_100 d oi fi =
     [(''id'', VStr (ascii ''100'')), (''name'', VStr (ascii ''Unknown Game'')),
      (''discount_percent'', VInt d), (''original_price'', VInt oi), (''final_price'', VInt fi)]"

definition no_lookup :: "pystr \<Rightarrow> price_overview option" where
  "no_lookup app_id = None"

definition some_markup :: pystr where
  "some_markup = ascii ''<a>''"


section \<open>Rounding\<close>

lemma pow2_powi: "pow2 e = 2 powi e"
  by (simp add: pow2_def power_int_def inverse_eq_divide power_one_over)

lemma pow2_pos: "0 < pow2 e"
  by (simp add: pow2_powi)

lemma pow2_add: "pow2 (a + b) = pow2 a * pow2 b"
  by (simp add: pow2_powi power_int_add)

lemma pow2_mono: "a \<le> b \<Longrightarrow> pow2 a \<le> pow2 b"
  by (simp add: pow2_powi power_int_increasing)

lemma pow2_nat: "pow2 (int n) = 2 ^ n"
  by (simp add: pow2_def)

lemma rhe_cases:
  obtains "round_half_even x = \<lfloor>x\<rfloor>" and "x - of_int \<lfloor>x\<rfloor> \<le> 1 / 2"
  | "round_half_even x = \<lfloor>x\<rfloor> + 1" and "1 / 2 \<le> x - of_int \<lfloor>x\<rfloor>"
  unfolding round_half_even_def Let_def
  by (cases "x - of_int \<lfloor>x\<rfloor> < 1 / 2"; cases "1 / 2 < x - of_int \<lfloor>x\<rfloor>"; cases "even \<lfloor>x\<rfloor>") auto

lemma rhe_err: "\<bar>of_int (round_half_even x) - x\<bar> \<le> 1 / 2"
proof (cases x rule: rhe_cases)
  case 1
  have "of_int \<lfloor>x\<rfloor> \<le> x" by simp
  with 1 show ?thesis by simp
next
  case 2
  have "x < of_int \<lfloor>x\<rfloor> + 1" by linarith
  with 2 show ?thesis by simp
qed

lemma rhe_le_int: assumes "x \<le> of_int m" shows "round_half_even x \<le> m"
proof (cases x rule: rhe_cases)
  case 1
  from assms have "\<lfloor>x\<rfloor> \<le> m" using floor_mono[of x "of_int m"] by simp
  with 1 show ?thesis by simp
next
  case 2
  have "\<lfloor>x\<rfloor> \<noteq> m"
  proof
    assume "\<lfloor>x\<rfloor> = m"
    with assms have "x \<le> of_int \<lfloor>x\<rfloor>" by simp
    with 2 show False by simp
  qed
  moreover from assms have "\<lfloor>x\<rfloor> \<le> m" using floor_mono[of x "of_int m"] by simp
  ultimately show ?thesis using 2 by simp
qed

lemma rhe_ge_int: assumes "of_int m \<le> x" shows "m \<le> round_half_even x"
proof -
  from assms have "m \<le> \<lfloor>x\<rfloor>" by (simp add: le_floor_iff)
  then show ?thesis by (cases x rule: rhe_cases) simp_all
qed

lemma bitlen_le_pow: assumes "n \<le> 2 ^ j" shows "bitlen n \<le> int j + 1"
proof (cases "0 < n")
  case True
  from bitlen_bounds[OF True] have "2 ^ nat (bitlen n - 1) \<le> n" by simp
  with assms have "(2::int) ^ nat (bitlen n - 1) \<le> 2 ^ j" by linarith
  then have "nat (bitlen n - 1) \<le> j" by simp
  then show ?thesis by linarith
next
  case False
  then have "bitlen n = 0" by (simp add: bitlen_eq_zero_iff)
  then show ?thesis by simp
qed

lemma pow2_of_bitlen:
  assumes "0 < a"
  shows "pow2 (bitlen a - 1) \<le> of_int a" and "of_int a < pow2 (bitlen a)"
proof -
  from assms have l: "1 \<le> bitlen a" using bitlen_eq_zero_iff[of a] bitlen_nonneg[of a] by linarith
  from bitlen_bounds[OF assms]
  have "(2::int) ^ nat (bitlen a - 1) \<le> a" and "a < 2 ^ nat (bitlen a)" by simp_all
  then have "(of_int (2 ^ nat (bitlen a - 1)) :: rat) \<le> of_int a"
    and "(of_int a :: rat) < of_int (2 ^ nat (bitlen a))"
    by (simp_all only: of_int_le_iff of_int_less_iff)
  with l show "pow2 (bitlen a - 1) \<le> of_int a" and "of_int a < pow2 (bitlen a)"
    by (simp_all add: pow2_def)
qed

lemma ilog2_bounds:
  assumes "0 < q"
  shows "pow2 (ilog2 q) \<le> q" and "q < pow2 (ilog2 q + 1)"
proof -
  obtain a b where ab: "quotient_of q = (a, b)" by (cases "quotient_of q")
  then have b: "0 < b" and q: "q = of_int a / of_int b"
    using quotient_of_denom_pos quotient_of_div by auto
  with assms have a: "0 < a" by (simp add: zero_less_divide_iff)
  define la lb where "la = bitlen a" and "lb = bitlen b"
  have bq: "(0::rat) < of_int b" using b by simp
  have lo: "pow2 (la - lb - 1) < q"
  proof -
    have "pow2 (la - lb - 1) * of_int b < pow2 (la - lb - 1) * pow2 lb"
      using pow2_of_bitlen(2)[OF b] pow2_pos[of "la - lb - 1"] by (simp add: lb_def)
    also have "\<dots> = pow2 (la - 1)" by (simp add: pow2_add[symmetric])
    also have "\<dots> \<le> of_int a" using pow2_of_bitlen(1)[OF a] by (simp add: la_def)
    finally show ?thesis using bq by (simp add: q pos_less_divide_eq)
  qed
  have hi: "q < pow2 (la - lb + 1)"
  proof -
    have "of_int a < pow2 la" using pow2_of_bitlen(2)[OF a] by (simp add: la_def)
    also have "\<dots> = pow2 (la - lb + 1) * pow2 (lb - 1)" by (simp add: pow2_add[symmetric])
    also have "\<dots> \<le> pow2 (la - lb + 1) * of_int b"
      using pow2_of_bitlen(1)[OF b] pow2_pos[of "la - lb + 1"] by (simp add: lb_def)
    finally show ?thesis using bq by (simp add: q pos_divide_less_eq)
  qed
  have il: "ilog2 q = (if q < pow2 (la - lb) then la - lb - 1 else la - lb)"
    by (simp add: ilog2_def ab la_def lb_def Let_def)
  show "pow2 (ilog2 q) \<le> q" using lo by (simp add: il)
  show "q < pow2 (ilog2 q + 1)" using hi by (simp add: il)
qed

lemma ilog2_le:
  assumes "0 < q" and "q < pow2 e"
  shows "ilog2 q < e"
proof (rule ccontr)
  assume "\<not> ilog2 q < e"
  then have "pow2 e \<le> pow2 (ilog2 q)" by (simp add: pow2_mono)
  with ilog2_bounds(1)[OF assms(1)] assms(2) show False by simp
qed

lemma ilog2_ge:
  assumes "0 < q" and "pow2 e \<le> q"
  shows "e \<le> ilog2 q"
proof (rule ccontr)
  assume "\<not> e \<le> ilog2 q"
  then have "pow2 (ilog2 q + 1) \<le> pow2 e" by (simp add: pow2_mono)
  with ilog2_bounds(2)[OF assms(1)] assms(2) show False by simp
qed


lemma rnd_pos_cases:
  assumes "0 < q"
  obtains (inf) "rnd q = PInf"
  | (fin) n k where "rnd q = Fin (of_int n * pow2 k)" and "k = max (ilog2 q) (- 1022) - 52"
      and "n = round_half_even (q / pow2 k)" and "0 \<le> n" and "k + bitlen n \<le> 1024"
proof -
  define k where "k = max (ilog2 q) (- 1022) - 52"
  define n where "n = round_half_even (q / pow2 k)"
  have "0 \<le> q / pow2 k" using assms pow2_pos[of k] by simp
  then have n0: "0 \<le> n" unfolding n_def using rhe_ge_int[of 0] by simp
  have r: "rnd q = (if 1024 < k + bitlen n then PInf else Fin (of_int n * pow2 k))"
    using assms by (simp add: rnd_def Let_def k_def n_def)
  show thesis
  proof (cases "1024 < k + bitlen n")
    case True
    with r show ?thesis by (simp add: inf)
  next
    case False
    with r n0 show ?thesis by (intro fin[of n k]) (simp_all add: k_def n_def)
  qed
qed

lemma rnd_neg: "q < 0 \<Longrightarrow> rnd q = (case rnd (- q) of Fin r \<Rightarrow> Fin (- r) | PInf \<Rightarrow> NInf | x \<Rightarrow> x)"
  by (simp add: rnd_def Let_def)

lemma rnd_nonneg:
  assumes "0 \<le> q"
  shows "rnd q = PInf \<or> (\<exists>r. rnd q = Fin r \<and> 0 \<le> r)"
proof (cases "q = 0")
  case True
  then show ?thesis by (simp add: rnd_def)
next
  case False
  with assms have "0 < q" by simp
  then show ?thesis
  proof (cases q rule: rnd_pos_cases)
    case inf
    then show ?thesis by simp
  next
    case (fin n k)
    then show ?thesis using pow2_pos[of k] by simp
  qed
qed

lemma rnd_unit:
  assumes "0 \<le> q" and "q \<le> 1"
  shows "\<exists>r. rnd q = Fin r \<and> 0 \<le> r \<and> r \<le> 1"
proof (cases "q = 0")
  case True
  then show ?thesis by (simp add: rnd_def)
next
  case False
  with assms have q: "0 < q" by simp
  have "q < pow2 1" using assms by (simp add: pow2_def)
  then have il: "ilog2 q < 1" using q by (rule ilog2_le[rotated])
  define k where "k = max (ilog2 q) (- 1022) - 52"
  define n where "n = round_half_even (q / pow2 k)"
  define j where "j = nat (- k)"
  have k: "k = - int j" using il by (simp add: k_def j_def)
  have pk: "pow2 k = 1 / 2 ^ j" by (simp add: k pow2_def)
  have "q / pow2 k = q * 2 ^ j" by (simp add: pk)
  also have "\<dots> \<le> 1 * 2 ^ j" using assms by (intro mult_right_mono) simp_all
  finally have "q / pow2 k \<le> of_int (2 ^ j)" by simp
  then have nj: "n \<le> 2 ^ j" unfolding n_def by (rule rhe_le_int)
  have "0 \<le> q / pow2 k" using q pow2_pos[of k] by simp
  then have n0: "0 \<le> n" unfolding n_def using rhe_ge_int[of 0] by simp
  have "bitlen n \<le> int j + 1" using nj by (rule bitlen_le_pow)
  then have "\<not> 1024 < k + bitlen n" by (simp add: k)
  then have r: "rnd q = Fin (of_int n * pow2 k)"
    using q by (simp add: rnd_def Let_def k_def n_def)
  have "(of_int n :: rat) \<le> of_int (2 ^ j)" using nj by (simp only: of_int_le_iff)
  then have "of_int n * pow2 k \<le> 1" by (simp add: pk field_simps)
  moreover have "0 \<le> of_int n * pow2 k" using n0 pow2_pos[of k] by simp
  ultimately show ?thesis using r by simp
qed

section \<open>Signs of derived prices\<close>

lemma rnd_one: "rnd 1 = Fin 1"
  by code_simp

lemma not_neg_cases:
  assumes "\<not> num_lt v 0"
  obtains a where "v = I a" and "0 \<le> a"
  | q where "v = F (Fin q)" and "0 \<le> q"
  | "v = F PInf" | "v = F NaN"
proof (cases v)
  case (I a)
  with assms that(1) show ?thesis by (simp add: num_lt_def)
next
  case (F x)
  with assms that(2,3,4) show ?thesis by (cases x) (simp_all add: num_lt_def)
qed

lemma float_of_int_nonneg:
  assumes "0 \<le> n" and "float_of_int n = Inr x"
  shows "\<exists>r. x = Fin r \<and> 0 \<le> r"
proof -
  have "0 \<le> (of_int n :: rat)" using assms(1) by simp
  from rnd_nonneg[OF this] assms(2) show ?thesis
    by (auto simp: float_of_int_def)
qed

lemma to_float_not_neg:
  assumes "\<not> num_lt x 0" and "to_float x = Inr a"
  shows "\<not> num_lt (F a) 0"
  using assms(1)
proof (cases x rule: not_neg_cases)
  case (1 n)
  with assms(2) float_of_int_nonneg[of n a] show ?thesis
    by (auto simp: to_float_def num_lt_def)
qed (use assms(2) in \<open>auto simp: to_float_def num_lt_def\<close>)

lemma fmul_not_neg:
  assumes "\<not> num_lt (F a) 0" and "\<not> num_lt (F b) 0"
  shows "\<not> num_lt (F (fmul a b)) 0"
proof (cases a)
  case fa: (Fin x)
  show ?thesis
  proof (cases b)
    case (Fin y)
    from assms fa Fin have "0 \<le> x * y" by (simp add: num_lt_def)
    from rnd_nonneg[OF this] show ?thesis using fa Fin
      by (auto simp: fmul_def num_lt_def)
  next
    case PInf
    with fa assms show ?thesis
      by (auto simp: fmul_def num_lt_def dsgn_def sgn_if)
  qed (use assms fa in \<open>auto simp: fmul_def num_lt_def\<close>)
next
  case PInf
  with assms show ?thesis
    by (cases b) (auto simp: fmul_def num_lt_def dsgn_def sgn_if)
qed (use assms in \<open>auto simp: fmul_def num_lt_def\<close>)

lemma num_mul_not_neg:
  assumes "\<not> num_lt x 0" and "\<not> num_lt y 0" and "num_mul x y = Inr v"
  shows "\<not> num_lt v 0"
proof (cases "\<exists>a b. x = I a \<and> y = I b")
  case True
  then obtain a b where ab: "x = I a" "y = I b" by blast
  with assms(1,2) have "0 \<le> a * b" by (simp add: num_lt_def)
  with assms(3) ab show ?thesis by (auto simp: num_mul_def num_lt_def)
next
  case False
  then have "num_mul x y = ebind (to_float x) (\<lambda>a. ebind (to_float y) (\<lambda>b. Inr (F (fmul a b))))"
    by (cases x; cases y) (auto simp: num_mul_def ebind_def split: sum.splits)
  with assms(3) obtain a b where "to_float x = Inr a" "to_float y = Inr b" "v = F (fmul a b)"
    by (auto simp: ebind_def split: sum.splits)
  with to_float_not_neg[OF assms(1)] to_float_not_neg[OF assms(2)] fmul_not_neg
  show ?thesis by simp
qed

lemma one_minus_unit:
  assumes "1 \<le> d" and "d \<le> 100"
  shows "\<exists>s. one_minus d = Inr (F (Fin s)) \<and> 0 \<le> s \<and> s \<le> 1"
proof -
  have "0 \<le> (of_int d / of_int 100 :: rat)" "(of_int d / of_int 100 :: rat) \<le> 1"
    using assms by simp_all
  from rnd_unit[OF this] obtain r where r: "rnd (of_int d / of_int 100) = Fin r" "0 \<le> r" "r \<le> 1"
    by blast
  have "0 \<le> 1 - r" "1 - r \<le> 1" using r by simp_all
  from rnd_unit[OF this] obtain s where s: "rnd (1 - r) = Fin s" "0 \<le> s" "s \<le> 1" by blast
  have "one_minus d = Inr (F (Fin s))"
    using r(1) s(1) rnd_one
    by (simp add: one_minus_def num_div_def ebind_def num_sub_def to_float_def float_of_int_def fsub_def)
  with s show ?thesis by blast
qed

lemma derive_final_not_neg:
  assumes "1 \<le> d" and "d \<le> 100" and "\<not> num_lt x 0" and "derive_final x d = Inr v"
  shows "\<not> num_lt v 0"
proof -
  from one_minus_unit[OF assms(1,2)] obtain s where s: "one_minus d = Inr (F (Fin s))" "0 \<le> s"
    by blast
  then have "num_mul x (F (Fin s)) = Inr v" using assms(4) by (simp add: derive_final_def ebind_def)
  moreover have "\<not> num_lt (F (Fin s)) 0" using s(2) by (simp add: num_lt_def)
  ultimately show ?thesis using assms(3) num_mul_not_neg by blast
qed

lemma int_of_num_not_neg:
  assumes "\<not> num_lt v 0" and "int_of_num v = Inr i"
  shows "0 \<le> i"
  using assms(1)
proof (cases v rule: not_neg_cases)
  case (2 q)
  with assms(2) show ?thesis by (auto simp: int_of_num_def trunc_rat_def)
qed (use assms(2) in \<open>auto simp: int_of_num_def\<close>)

lemma not_le_not_lt: "\<not> num_le v 0 \<Longrightarrow> \<not> num_lt v 0"
  by (simp add: num_le_def)

lemma emit_props:
  assumes "emit app_id name d op = Inr (Some it)"
  shows "\<exists>oi fi. it = [(''id'', VStr app_id), (''name'', VStr name), (''discount_percent'', VInt d),
            (''original_price'', VInt oi), (''final_price'', VInt fi)]
          \<and> 0 < d \<and> 0 \<le> oi \<and> (d \<le> 100 \<longrightarrow> 0 \<le> fi)"
proof -
  from assms have d: "0 < d" by (auto simp: emit_def split: if_splits)
  define o' where "o' = (if num_le (fst op) 0 then I 999 else fst op)"
  have o': "\<not> num_lt o' 0"
    using not_le_not_lt[of "fst op"] by (auto simp: o'_def) (simp add: num_lt_def)
  have "ebind (if num_le (snd op) 0 then derive_final o' d else Inr (snd op))
          (\<lambda>final_price. ebind (int_of_num o')
             (\<lambda>oi. ebind (int_of_num final_price)
                (\<lambda>fi. Inr (Some [(''id'', VStr app_id), (''name'', VStr name),
                   (''discount_percent'', VInt d), (''original_price'', VInt oi),
                   (''final_price'', VInt fi)])))) = Inr (Some it)"
    using assms d unfolding o'_def emit_def Let_def by (simp only: if_True)
  then obtain f' oi fi where
    f': "(if num_le (snd op) 0 then derive_final o' d else Inr (snd op)) = Inr f'"
    and oi: "int_of_num o' = Inr oi" and fi: "int_of_num f' = Inr fi"
    and it: "it = [(''id'', VStr app_id), (''name'', VStr name), (''discount_percent'', VInt d),
            (''original_price'', VInt oi), (''final_price'', VInt fi)]"
    unfolding ebind_def by (auto split: sum.splits)
  have "0 \<le> oi" using o' oi by (rule int_of_num_not_neg)
  moreover have "0 \<le> fi" if "d \<le> 100"
  proof -
    have "\<not> num_lt f' 0"
    proof (cases "num_le (snd op) 0")
      case True
      with f' have "derive_final o' d = Inr f'" by simp
      with derive_final_not_neg[of d o' f'] d that o' show ?thesis by simp
    next
      case False
      with f' show ?thesis by (auto simp: not_le_not_lt)
    qed
    then show ?thesis using fi by (rule int_of_num_not_neg)
  qed
  ultimately show ?thesis using it d by blast
qed

lemma extract_game_emit:
  assumes "extract_game api game = Inr (Some it)"
  shows "\<exists>app_id name d op. emit app_id name d op = Inr (Some it)
     \<and> 0 < extract_discount game discount_selectors"
  using assms
  by (fastforce simp: extract_game_def ebind_def Let_def split: sum.splits if_splits prod.splits)

lemma collect_mem:
  "it \<in> set (collect api rows) \<longleftrightarrow> (\<exists>game \<in> set rows. extract_game api game = Inr (Some it))"
  by (force simp: collect_def split: sum.splits option.splits)

section \<open>The extractor on the example pages\<close>

lemma extract_game_resolved:
  assumes "resolve_app_id (snd g) = Inr (Some a)" and "a \<noteq> []"
    and "extract_discount g discount_selectors = d" and "0 < d"
    and "page_prices d g = Inr (F (Fin p), F (Fin f))" and "0 < p" and "0 < f"
  shows "extract_game api g = emit a (extract_name g name_selectors) d (F (Fin p), F (Fin f))"
  using assms
  by (simp add: extract_game_def ebind_def truthy_def Let_def api_prices_def reconcile_def
      num_le_def num_lt_def num_eq_def num_gt_def)

lemma ascii_100: "ascii ''100'' \<noteq> []"
  by (simp add: ascii_def)

lemma emit_100:
  "emit (ascii ''100'') (ascii ''Unknown Game'') 75 (F (Fin 10000), F (Fin 2500)) =
    Inr (Some (record_100 75 10000 2500))"
  by code_simp

lemma page_a_rows: "game_rows [page_a] = [([], page_a)]"
  by code_simp

lemma page_a_game: "extract_game api ([], page_a) = Inr (Some (record_100 75 10000 2500))"
proof -
  have "resolve_app_id page_a = Inr (Some (ascii ''100''))" by code_simp
  moreover have "extract_discount ([], page_a) discount_selectors = 75" by code_simp
  moreover have "page_prices 75 ([], page_a) = Inr (F (Fin 10000), F (Fin 2500))" by code_simp
  moreover have "extract_name ([], page_a) name_selectors = ascii ''Unknown Game''" by code_simp
  ultimately show ?thesis
    using extract_game_resolved[of "([], page_a)" "ascii ''100''" 75 10000 2500 api]
    by (simp add: emit_100 ascii_100)
qed

lemma page_b_rows: "game_rows [page_b] = [([], page_b)]"
  by code_simp

lemma page_b_game: "extract_game api ([], page_b) = Inr (Some (record_100 75 10000 2500))"
proof -
  have "resolve_app_id page_b = Inr (Some (ascii ''100''))" by code_simp
  moreover have "extract_discount ([], page_b) discount_selectors = 75" by code_simp
  moreover have "page_prices 75 ([], page_b) = Inr (F (Fin 10000), F (Fin 2500))" by code_simp
  moreover have "extract_name ([], page_b) name_selectors = ascii ''Unknown Game''" by code_simp
  ultimately show ?thesis
    using extract_game_resolved[of "([], page_b)" "ascii ''100''" 75 10000 2500 api]
    by (simp add: emit_100 ascii_100)
qed

lemma page_b_text_rows: "game_rows [page_b_text] = [([], page_b_text)]"
  by code_simp

lemma page_b_text_game: "extract_game api ([], page_b_text) = Inr (Some (record_100 75 10000 2500))"
proof -
  have "resolve_app_id page_b_text = Inr (Some (ascii ''100''))" by code_simp
  moreover have "extract_discount ([], page_b_text) discount_selectors = 75" by code_simp
  moreover have "page_prices 75 ([], page_b_text) = Inr (F (Fin 10000), F (Fin 2500))" by code_simp
  moreover have "extract_name ([], page_b_text) name_selectors = ascii ''Unknown Game''" by code_simp
  ultimately show ?thesis
    using extract_game_resolved[of "([], page_b_text)" "ascii ''100''" 75 10000 2500 api]
    by (simp add: emit_100 ascii_100)
qed

lemma some_markup_ok: "some_markup \<noteq> [] \<and> \<not> contains site_error_marker some_markup"
  by code_simp

text \<open>
  C1. A page whose parsed markup is one result with \<open>data-ds-appid="100"\<close>, the badge
  \<open>-75%\<close> and the prices 100,00 and 25,00 in the currency of the store yields exactly
  the record with id \<open>100\<close>, discount 75, original price 10000 and final price 2500.
  This holds when both prices have their own elements (\<open>page_a\<close>), and when the element
  of the final price is missing and the amounts are read from the text of the price
  container (\<open>page_b\<close>, \<open>page_b_text\<close>). The record also has the placeholder name, as
  the page names no title. The detail lookup plays no part.
\<close>

theorem scenarios_a_b:
  assumes "h \<noteq> []" and "\<not> contains site_error_marker h"
    and "parse h = [page_a] \<or> parse h = [page_b] \<or> parse h = [page_b_text]"
  shows "extract_games_from_store_page parse api (Some h) = [record_100 75 10000 2500]"
  using assms
  by (auto simp: extract_games_from_store_page_def collect_def page_a_rows page_a_game
      page_b_rows page_b_game page_b_text_rows page_b_text_game)

theorem scenarios_a_b_witness:
  "some_markup \<noteq> [] \<and> \<not> contains site_error_marker some_markup
   \<and> extract_games_from_store_page (\<lambda>h. [page_a]) no_lookup (Some some_markup)
       = [record_100 75 10000 2500]
   \<and> extract_games_from_store_page (\<lambda>h. [page_b]) no_lookup (Some some_markup)
       = [record_100 75 10000 2500]
   \<and> extract_games_from_store_page (\<lambda>h. [page_b_text]) no_lookup (Some some_markup)
       = [record_100 75 10000 2500]"
  using scenarios_a_b[of some_markup "\<lambda>h. [page_a]" no_lookup]
    scenarios_a_b[of some_markup "\<lambda>h. [page_b]" no_lookup]
    scenarios_a_b[of some_markup "\<lambda>h. [page_b_text]" no_lookup]
    some_markup_ok
  by simp

section \<open>Invariants of the emitted records\<close>

lemma extract_mem:
  assumes "it \<in> set (extract_games_from_store_page parse api html)"
  shows "\<exists>app_id name d op. emit app_id name d op = Inr (Some it)"
proof -
  from assms obtain rows where "it \<in> set (collect api rows)"
    by (auto simp: extract_games_from_store_page_def split: option.splits if_splits)
  then obtain game where "extract_game api game = Inr (Some it)"
    by (auto simp: collect_mem)
  with extract_game_emit show ?thesis by blast
qed




text \<open>
  A badge of \<open>-150%\<close>: the record is emitted with \<open>discount_percent = 150\<close>, above
  100.
\<close>

theorem badge_above_100:
  "extract_games_from_store_page (\<lambda>h. [page_badge ''-150%'']) no_lookup (Some some_markup)
     = [record_100 150 10000 2500]"
  by code_simp

lemma collect_positive:
  "collect api rows = collect api (filter (\<lambda>g. 0 < extract_discount g discount_selectors) rows)"
proof (induction rows)
  case Nil
  show ?case by simp
next
  case (Cons g rows)
  have "(case extract_game api g of Inr (Some it) \<Rightarrow> [it] | _ \<Rightarrow> []) = []"
    if "\<not> 0 < extract_discount g discount_selectors"
    using that extract_game_emit[of api g] by (auto split: sum.splits option.splits)
  with Cons show ?case by (simp add: collect_def)
qed

text \<open>
  C4, as the code has it. Every emitted record has an integer \<open>discount_percent\<close> of at
  least 1; the code sets no upper bound. A candidate whose discount on the page resolves to
  0 or less adds nothing to the output: the page yields what its other candidates yield. In
  particular the page with the badge \<open>-0%\<close> yields no record.
\<close>

theorem discount_positive:
  "(it \<in> set (extract_games_from_store_page parse api html) \<longrightarrow>
      (\<exists>d. item_get it ''discount_percent'' = Some (VInt d) \<and> 1 \<le> d))
   \<and> collect api rows = collect api (filter (\<lambda>g. 0 < extract_discount g discount_selectors) rows)
   \<and> extract_games_from_store_page (\<lambda>h. [page_badge ''-0%'']) api (Some some_markup) = []"
proof (intro conjI impI)
  assume "it \<in> set (extract_games_from_store_page parse api html)"
  from extract_mem[OF this] obtain app_id name d op where "emit app_id name d op = Inr (Some it)"
    by blast
  from emit_props[OF this] show "\<exists>d. item_get it ''discount_percent'' = Some (VInt d) \<and> 1 \<le> d"
    by (auto simp: item_get_def)
next
  show "collect api rows = collect api (filter (\<lambda>g. 0 < extract_discount g discount_selectors) rows)"
    by (rule collect_positive)
next
  have r: "game_rows [page_badge ''-0%''] = [([], page_badge ''-0%'')]" by code_simp
  have d: "extract_discount ([], page_badge ''-0%'') discount_selectors = 0" by code_simp
  have "collect api [([], page_badge ''-0%'')] = []"
    by (subst collect_positive) (simp add: d collect_def)
  then show "extract_games_from_store_page (\<lambda>h. [page_badge ''-0%'']) api (Some some_markup) = []"
    using some_markup_ok by (simp add: extract_games_from_store_page_def r)
qed

theorem discount_positive_witness:
  "record_100 75 10000 2500 \<in> set (extract_games_from_store_page (\<lambda>h. [page_a]) no_lookup (Some some_markup))
   \<and> (\<exists>d. item_get (record_100 75 10000 2500) ''discount_percent'' = Some (VInt d) \<and> 1 \<le> d)"
proof -
  have m: "record_100 75 10000 2500 \<in> set (extract_games_from_store_page (\<lambda>h. [page_a]) no_lookup (Some some_markup))"
    by code_simp
  from m discount_positive[of "record_100 75 10000 2500" "\<lambda>h. [page_a]" no_lookup "Some some_markup"]
  show ?thesis by blast
qed



section \<open>The price parser: totality and sign\<close>




lemma rnd_100: "float_of_int 100 = Inr (Fin 100)"
  by code_simp










section \<open>The reporter's sort\<close>

lemma keyed_map:
  "keyed f xs = Inr ks \<Longrightarrow> map snd ks = xs \<and> (\<forall>p \<in> set ks. f (snd p) = Inr (fst p))"
proof (induction xs arbitrary: ks)
  case Nil
  then show ?case by simp
next
  case (Cons x xs)
  then show ?case by (auto split: sum.splits)
qed

lemma keyed_total:
  "(\<forall>x \<in> set xs. \<exists>k. f x = Inr k) \<Longrightarrow> \<exists>ks. keyed f xs = Inr ks"
  by (induction xs) (auto split: sum.splits)

lemma keyed_filter:
  assumes "keyed f xs = Inr ks"
  shows "map snd (filter (\<lambda>p. fst p = k) ks) = filter (\<lambda>x. f x = Inr k) xs"
  using assms
proof (induction xs arbitrary: ks)
  case Nil
  then show ?case by simp
next
  case (Cons x xs)
  then show ?case by (auto split: sum.splits)
qed

lemma sorted_desc:
  "sorted_wrt (\<lambda>a b. b \<le> a) (map fst (rev (sort_key fst (rev ks)))) " for ks :: "(int \<times> 'a) list"
proof -
  have "sorted (map fst (sort_key fst (rev ks)))" by simp
  then have "sorted (rev (map fst (rev (sort_key fst (rev ks)))))" by (simp add: rev_map)
  then show ?thesis by (simp add: sorted_wrt_rev)
qed

lemma stable_desc:
  "filter (\<lambda>p. fst p = k) (rev (sort_key fst (rev ks))) = filter (\<lambda>p. fst p = k) ks"
proof -
  have "filter (\<lambda>p. fst p = k) (rev (sort_key fst (rev ks)))
      = rev (filter (\<lambda>p. fst p = k) (sort_key fst (rev ks)))" by (simp add: rev_filter)
  also have "\<dots> = rev (filter (\<lambda>p. fst p = k) (rev ks))" by (simp add: sort_key_stable)
  finally show ?thesis by (simp add: rev_filter)
qed


lemma sort_items_keyed:
  assumes "sort_items_by_discount items = Inr ys"
  obtains ks where "keyed discount_key (map the (filter valid_item items)) = Inr ks"
    and "ys = map snd (rev (sort_key fst (rev ks)))"
  using assms by (auto simp: sort_items_by_discount_def sorted_reverse_def Let_def split: sum.splits)

lemma sorted_keys:
  assumes "\<forall>p \<in> set ks. f (snd p) = Inr (fst p)"
  shows "map f (map snd (rev (sort_key fst (rev ks)))) = map Inr (map fst (rev (sort_key fst (rev ks))))"
  using assms by (simp add: comp_def)

lemma sample_sorted:
  "sort_items_by_discount
     [Some (record_100 10 500 450), None, Some [], Some [(''id'', VStr (ascii ''7''))],
      Some (record_100 75 10000 2500), Some (record_100 10 999 899)]
   = Inr [record_100 75 10000 2500, record_100 10 500 450, record_100 10 999 899]"
  by code_simp

text \<open>
  C8. When \<open>sort_items_by_discount\<close> returns, the discounts of its result, read as
  the sort key reads them, are non-increasing, and for each discount the records with that
  discount are in the order they have in the input, so the sort is stable; the result has
  one record for each valid entry. It does return when the discount of every valid entry
  is an integer, as it is in the records of the extractor.
\<close>

theorem sort_descending_stable:
  "(sort_items_by_discount items = Inr ys \<longrightarrow>
      (\<exists>ks. map discount_key ys = map Inr ks \<and> sorted_wrt (\<lambda>a b. b \<le> a) ks)
      \<and> (\<forall>k. filter (\<lambda>y. discount_key y = Inr k) ys
               = filter (\<lambda>x. discount_key x = Inr k) (map the (filter valid_item items)))
      \<and> length ys = length (filter valid_item items))
   \<and> ((\<forall>x \<in> set items. valid_item x \<longrightarrow> (\<exists>n. item_get (the x) ''discount_percent'' = Some (VInt n)))
        \<longrightarrow> (\<exists>zs. sort_items_by_discount items = Inr zs))"
proof (intro conjI impI allI)
  assume a: "sort_items_by_discount items = Inr ys"
  then obtain ks where ks: "keyed discount_key (map the (filter valid_item items)) = Inr ks"
    and ys: "ys = map snd (rev (sort_key fst (rev ks)))"
    by (rule sort_items_keyed)
  from keyed_map[OF ks] have m: "map snd ks = map the (filter valid_item items)"
    and k: "\<forall>p \<in> set ks. discount_key (snd p) = Inr (fst p)" by simp_all
  have "map discount_key ys = map Inr (map fst (rev (sort_key fst (rev ks))))"
    unfolding ys using k by (intro sorted_keys)
  with sorted_desc[of ks]
  show "\<exists>ks. map discount_key ys = map Inr ks \<and> sorted_wrt (\<lambda>a b. b \<le> a) ks" by blast
  show "length ys = length (filter valid_item items)"
    using arg_cong[OF m, of length] by (simp add: ys)
  fix k
  have "filter (\<lambda>y. discount_key y = Inr k) ys
      = map snd (filter (\<lambda>p. discount_key (snd p) = Inr k) (rev (sort_key fst (rev ks))))"
    by (simp add: ys filter_map comp_def)
  also have "filter (\<lambda>p. discount_key (snd p) = Inr k) (rev (sort_key fst (rev ks)))
      = filter (\<lambda>p. fst p = k) (rev (sort_key fst (rev ks)))"
    using k by (intro filter_cong) auto
  also have "\<dots> = filter (\<lambda>p. fst p = k) ks" by (rule stable_desc)
  also have "map snd \<dots> = filter (\<lambda>x. discount_key x = Inr k) (map the (filter valid_item items))"
    using ks by (rule keyed_filter)
  finally show "filter (\<lambda>y. discount_key y = Inr k) ys
      = filter (\<lambda>x. discount_key x = Inr k) (map the (filter valid_item items))" .
next
  assume a: "\<forall>x \<in> set items. valid_item x \<longrightarrow> (\<exists>n. item_get (the x) ''discount_percent'' = Some (VInt n))"
  have "\<forall>x \<in> set (map the (filter valid_item items)). \<exists>k. discount_key x = Inr k"
    using a by (auto simp: discount_key_def int_of_val_def)
  from keyed_total[OF this] obtain ks
    where "keyed discount_key (map the (filter valid_item items)) = Inr ks" by blast
  then show "\<exists>zs. sort_items_by_discount items = Inr zs"
    by (simp add: sort_items_by_discount_def sorted_reverse_def)
qed

theorem sort_descending_stable_witness:
  "sort_items_by_discount
     [Some (record_100 10 500 450), None, Some [], Some [(''id'', VStr (ascii ''7''))],
      Some (record_100 75 10000 2500), Some (record_100 10 999 899)]
   = Inr [record_100 75 10000 2500, record_100 10 500 450, record_100 10 999 899]
   \<and> (\<exists>ks. map discount_key [record_100 75 10000 2500, record_100 10 500 450, record_100 10 999 899]
              = map Inr ks \<and> sorted_wrt (\<lambda>a b. b \<le> a) ks)
   \<and> (\<exists>zs. sort_items_by_discount [Some (record_100 75 10000 2500), None] = Inr zs)"
proof -
  have v: "\<forall>x \<in> set [Some (record_100 75 10000 2500), None]. valid_item x \<longrightarrow>
         (\<exists>n. item_get (the x) ''discount_percent'' = Some (VInt n))"
    by (simp add: valid_item_def record_100_def item_get_def)
  from sample_sorted v
    sort_descending_stable[of "[Some (record_100 10 500 450), None, Some [], Some [(''id'', VStr (ascii ''7''))],
      Some (record_100 75 10000 2500), Some (record_100 10 999 899)]"
      "[record_100 75 10000 2500, record_100 10 500 450, record_100 10 999 899]"]
    sort_descending_stable[of "[Some (record_100 75 10000 2500), None]" "[]"]
  show ?thesis by blast
qed

text \<open>
  C10. Entries that are \<open>None\<close> or an empty dictionary, or that lack the key
  \<open>discount_percent\<close>, are dropped before the sort and without an error: sorting the
  list is sorting its valid entries. No such entry is in the result, which holds exactly
  the valid entries.
\<close>

theorem sort_drops_invalid:
  "sort_items_by_discount items = sort_items_by_discount (filter valid_item items)
   \<and> (sort_items_by_discount items = Inr ys \<longrightarrow>
        set ys = the ` {x \<in> set items. valid_item x}
        \<and> (\<forall>y \<in> set ys. y \<noteq> [] \<and> item_get y ''discount_percent'' \<noteq> None))"
proof (intro conjI impI)
  show "sort_items_by_discount items = sort_items_by_discount (filter valid_item items)"
    by (simp add: sort_items_by_discount_def)
next
  assume a: "sort_items_by_discount items = Inr ys"
  then obtain ks where ks: "keyed discount_key (map the (filter valid_item items)) = Inr ks"
    and ys: "ys = map snd (rev (sort_key fst (rev ks)))"
    by (rule sort_items_keyed)
  from keyed_map[OF ks] have m: "map snd ks = map the (filter valid_item items)" by simp
  have "set ys = snd ` set ks" by (simp add: ys)
  also have "\<dots> = set (map snd ks)" by simp
  also have "\<dots> = the ` {x \<in> set items. valid_item x}" by (simp add: m)
  finally show s: "set ys = the ` {x \<in> set items. valid_item x}" .
  show "\<forall>y \<in> set ys. y \<noteq> [] \<and> item_get y ''discount_percent'' \<noteq> None"
    unfolding s by (auto simp: valid_item_def split: option.splits)
qed

theorem sort_drops_invalid_witness:
  "sort_items_by_discount
     [Some (record_100 10 500 450), None, Some [], Some [(''id'', VStr (ascii ''7''))],
      Some (record_100 75 10000 2500), Some (record_100 10 999 899)]
   = Inr [record_100 75 10000 2500, record_100 10 500 450, record_100 10 999 899]
   \<and> set [record_100 75 10000 2500, record_100 10 500 450, record_100 10 999 899]
     = the ` {x \<in> set [Some (record_100 10 500 450), None, Some [], Some [(''id'', VStr (ascii ''7''))],
                        Some (record_100 75 10000 2500), Some (record_100 10 999 899)]. valid_item x}"
  using sample_sorted
    sort_drops_invalid[of "[Some (record_100 10 500 450), None, Some [], Some [(''id'', VStr (ascii ''7''))],
      Some (record_100 75 10000 2500), Some (record_100 10 999 899)]"
      "[record_100 75 10000 2500, record_100 10 500 450, record_100 10 999 899]"]
  by blast

section \<open>The batch controller: what is fetched and what is returned\<close>

lemma batch_step:
  assumes "max_pages - page st + 1 = int m"
  shows "\<exists>m'. m' \<le> m \<and> (0 < n \<and> 0 < m \<longrightarrow> m' < m)
     \<and> max_pages - page (batch parse api fetch max_pages n st) + 1 = int m'
     \<and> fetched (batch parse api fetch max_pages n st)
          @ fst (sequential_fetch parse api fetch m' (page (batch parse api fetch max_pages n st)))
        = fetched st @ fst (sequential_fetch parse api fetch m (page st))
     \<and> all_items (batch parse api fetch max_pages n st)
          @ snd (sequential_fetch parse api fetch m' (page (batch parse api fetch max_pages n st)))
        = all_items st @ snd (sequential_fetch parse api fetch m (page st))
     \<and> unique_items (batch parse api fetch max_pages n st) = unique_items st"
  using assms
proof (induction n arbitrary: st m)
  case 0
  then show ?case by (intro exI[of _ m]) simp
next
  case (Suc n)
  show ?case
  proof (cases "max_pages < page st")
    case True
    with Suc.prems have "m = 0" by simp
    with True Suc.prems show ?thesis by (intro exI[of _ 0]) simp
  next
    case False
    with Suc.prems obtain m0 where m: "m = Suc m0" by (cases m) simp_all
    show ?thesis
    proof (cases "terminal parse api fetch (page st)")
      case True
      then have "batch parse api fetch max_pages (Suc n) st
          = st\<lparr>fetched := fetched st @ [page st], page := max_pages + 1\<rparr>"
        using False by (auto simp: terminal_def page_items_def Let_def)
      with True m show ?thesis by (intro exI[of _ 0]) simp
    next
      case nt: False
      define st2 where "st2 = st\<lparr>fetched := fetched st @ [page st],
         all_items := all_items st @ page_items parse api fetch (page st), page := page st + 1\<rparr>"
      have b: "batch parse api fetch max_pages (Suc n) st = batch parse api fetch max_pages n st2"
        using False nt by (auto simp: terminal_def page_items_def Let_def st2_def)
      have "max_pages - page st2 + 1 = int m0" using Suc.prems m by (simp add: st2_def)
      from Suc.IH[OF this] obtain m' where m': "m' \<le> m0"
        "max_pages - page (batch parse api fetch max_pages n st2) + 1 = int m'"
        "fetched (batch parse api fetch max_pages n st2)
          @ fst (sequential_fetch parse api fetch m' (page (batch parse api fetch max_pages n st2)))
        = fetched st2 @ fst (sequential_fetch parse api fetch m0 (page st2))"
        "all_items (batch parse api fetch max_pages n st2)
          @ snd (sequential_fetch parse api fetch m' (page (batch parse api fetch max_pages n st2)))
        = all_items st2 @ snd (sequential_fetch parse api fetch m0 (page st2))"
        "unique_items (batch parse api fetch max_pages n st2) = unique_items st2"
        by blast
      show ?thesis
        using m' nt m unfolding b by (intro exI[of _ m']) (simp add: st2_def)
    qed
  qed
qed


lemma batches_run:
  assumes "1 \<le> results_interval" and "max_pages - page st + 1 = int m"
  shows "\<exists>st'. batches parse api fetch max_pages results_interval st = Some st'
     \<and> fetched st' = fetched st @ fst (sequential_fetch parse api fetch m (page st))
     \<and> all_items st' = all_items st @ snd (sequential_fetch parse api fetch m (page st))
     \<and> unique_items st' = (if m = 0 then unique_items st else dedup {} (all_items st'))"
  using assms(2)
proof (induction m arbitrary: st rule: less_induct)
  case (less m)
  show ?case
  proof (cases "m = 0")
    case True
    with less.prems have "\<not> page st \<le> max_pages" by simp
    then have "batches parse api fetch max_pages results_interval st = Some st"
      by (subst batches.simps) simp
    with True show ?thesis by simp
  next
    case False
    with less.prems have le: "page st \<le> max_pages" by simp
    define st1 where "st1 = batch parse api fetch max_pages (nat results_interval) st"
    define st2 where "st2 = st1\<lparr>unique_items := dedup {} (all_items st1)\<rparr>"
    have u: "batches parse api fetch max_pages results_interval st
        = batches parse api fetch max_pages results_interval st2"
      using le by (subst batches.simps) (simp add: st1_def st2_def Let_def)
    from batch_step[OF less.prems, of "nat results_interval" parse api fetch] assms(1) False
    obtain m' where m': "m' < m" "max_pages - page st1 + 1 = int m'"
      "fetched st1 @ fst (sequential_fetch parse api fetch m' (page st1))
        = fetched st @ fst (sequential_fetch parse api fetch m (page st))"
      "all_items st1 @ snd (sequential_fetch parse api fetch m' (page st1))
        = all_items st @ snd (sequential_fetch parse api fetch m (page st))"
      unfolding st1_def by auto
    have "max_pages - page st2 + 1 = int m'" using m'(2) by (simp add: st2_def)
    from less.IH[OF m'(1) this] obtain st' where st':
      "batches parse api fetch max_pages results_interval st2 = Some st'"
      "fetched st' = fetched st2 @ fst (sequential_fetch parse api fetch m' (page st2))"
      "all_items st' = all_items st2 @ snd (sequential_fetch parse api fetch m' (page st2))"
      "unique_items st' = (if m' = 0 then unique_items st2 else dedup {} (all_items st'))"
      by blast
    have "unique_items st' = dedup {} (all_items st')"
      using st'(3,4) by (cases "m' = 0") (simp_all add: st2_def)
    with st' m' False show ?thesis unfolding u by (simp add: st2_def)
  qed
qed

lemma terminal_iff: "terminal parse api fetch p \<longleftrightarrow> page_items parse api fetch p = []"
  by (auto simp: terminal_def page_items_def extract_games_from_store_page_def)

lemma batch_inv:
  assumes "all_items st = concat (map (page_items parse api fetch) (fetched st))"
  shows "all_items (batch parse api fetch max_pages n st)
     = concat (map (page_items parse api fetch) (fetched (batch parse api fetch max_pages n st)))"
  using assms
proof (induction n arbitrary: st)
  case 0
  then show ?case by simp
next
  case (Suc n)
  show ?case
  proof (cases "max_pages < page st")
    case True
    with Suc.prems show ?thesis by simp
  next
    case False
    show ?thesis
    proof (cases "terminal parse api fetch (page st)")
      case True
      then have "batch parse api fetch max_pages (Suc n) st
          = st\<lparr>fetched := fetched st @ [page st], page := max_pages + 1\<rparr>"
        using False by (auto simp: terminal_def page_items_def Let_def)
      with True Suc.prems show ?thesis by (simp add: terminal_iff)
    next
      case nt: False
      define st2 where "st2 = st\<lparr>fetched := fetched st @ [page st],
         all_items := all_items st @ page_items parse api fetch (page st), page := page st + 1\<rparr>"
      have b: "batch parse api fetch max_pages (Suc n) st = batch parse api fetch max_pages n st2"
        using False nt by (auto simp: terminal_def page_items_def Let_def st2_def)
      have "all_items st2 = concat (map (page_items parse api fetch) (fetched st2))"
        using Suc.prems by (simp add: st2_def)
      from Suc.IH[OF this] show ?thesis unfolding b .
    qed
  qed
qed

lemma batches_inv:
  assumes "batches parse api fetch max_pages results_interval st = Some y"
  shows "all_items st = concat (map (page_items parse api fetch) (fetched st)) \<longrightarrow>
         unique_items st = dedup {} (all_items st) \<longrightarrow>
         all_items y = concat (map (page_items parse api fetch) (fetched y))
         \<and> unique_items y = dedup {} (all_items y)"
proof (rule batches.raw_induct[where P = "\<lambda>parse api fetch max_pages results_interval st y.
         all_items st = concat (map (page_items parse api fetch) (fetched st)) \<longrightarrow>
         unique_items st = dedup {} (all_items st) \<longrightarrow>
         all_items y = concat (map (page_items parse api fetch) (fetched y))
         \<and> unique_items y = dedup {} (all_items y)", OF _ assms])
  fix f :: "(pystr \<Rightarrow> node list) \<Rightarrow> (pystr \<Rightarrow> price_overview option) \<Rightarrow> (int \<Rightarrow> pystr option)
     \<Rightarrow> int \<Rightarrow> int \<Rightarrow> state \<Rightarrow> state option"
  fix parse api fetch max_pages results_interval st y
  assume IH: "\<And>parse api fetch max_pages results_interval st y.
      f parse api fetch max_pages results_interval st = Some y \<Longrightarrow>
      all_items st = concat (map (page_items parse api fetch) (fetched st)) \<longrightarrow>
      unique_items st = dedup {} (all_items st) \<longrightarrow>
      all_items y = concat (map (page_items parse api fetch) (fetched y))
      \<and> unique_items y = dedup {} (all_items y)"
  assume step: "(if page st \<le> max_pages
      then let st1 = batch parse api fetch max_pages (nat results_interval) st
           in f parse api fetch max_pages results_interval
               (st1\<lparr>unique_items := dedup {} (all_items st1)\<rparr>)
      else Some st) = Some y"
  show "all_items st = concat (map (page_items parse api fetch) (fetched st)) \<longrightarrow>
         unique_items st = dedup {} (all_items st) \<longrightarrow>
         all_items y = concat (map (page_items parse api fetch) (fetched y))
         \<and> unique_items y = dedup {} (all_items y)"
  proof (cases "page st \<le> max_pages")
    case True
    define st1 where "st1 = batch parse api fetch max_pages (nat results_interval) st"
    define st2 where "st2 = st1\<lparr>unique_items := dedup {} (all_items st1)\<rparr>"
    from step True have "f parse api fetch max_pages results_interval st2 = Some y"
      by (simp add: st1_def st2_def Let_def)
    from IH[OF this] batch_inv[of st parse api fetch max_pages "nat results_interval"]
    show ?thesis by (simp add: st1_def st2_def)
  next
    case False
    with step show ?thesis by simp
  qed
qed


lemma dedup_kept:
  "it \<in> set (dedup S xs) \<Longrightarrow>
     it \<in> set xs \<and> val_truthy (item_get it ''id'') \<and> the (item_get it ''id'') \<notin> S"
proof (induction xs arbitrary: S)
  case Nil
  then show ?case by simp
next
  case (Cons x xs)
  show ?case
  proof (cases "val_truthy (item_get x ''id'') \<and> the (item_get x ''id'') \<notin> S")
    case True
    with Cons.prems have "it = x \<or> it \<in> set (dedup (insert (the (item_get x ''id'')) S) xs)"
      by (simp add: Let_def)
    then show ?thesis
    proof
      assume "it = x"
      with True show ?thesis by simp
    next
      assume "it \<in> set (dedup (insert (the (item_get x ''id'')) S) xs)"
      from Cons.IH[OF this] show ?thesis by simp
    qed
  next
    case False
    with Cons.prems have "it \<in> set (dedup S xs)" by (auto simp: Let_def)
    from Cons.IH[OF this] show ?thesis by simp
  qed
qed

lemma truthy_the_eq:
  "val_truthy a \<Longrightarrow> val_truthy b \<Longrightarrow> the a = the b \<Longrightarrow> a = b"
  by (cases a; cases b) (simp_all add: val_truthy_def)

lemma dedup_distinct: "distinct (map (\<lambda>it. item_get it ''id'') (dedup S xs))"
proof (induction xs arbitrary: S)
  case Nil
  show ?case by simp
next
  case (Cons x xs)
  show ?case
  proof (cases "val_truthy (item_get x ''id'') \<and> the (item_get x ''id'') \<notin> S")
    case True
    have "item_get x ''id'' \<noteq> item_get it ''id''"
      if "it \<in> set (dedup (insert (the (item_get x ''id'')) S) xs)" for it
      using dedup_kept[OF that] by auto
    with True Cons.IH show ?thesis by (auto simp: Let_def)
  next
    case False
    with Cons.IH show ?thesis by (auto simp: Let_def)
  qed
qed

lemma dedup_first:
  "it \<in> set (dedup S xs) \<Longrightarrow> find (\<lambda>x. item_get x ''id'' = item_get it ''id'') xs = Some it"
proof (induction xs arbitrary: S)
  case Nil
  then show ?case by simp
next
  case (Cons x xs)
  show ?case
  proof (cases "val_truthy (item_get x ''id'') \<and> the (item_get x ''id'') \<notin> S")
    case True
    with Cons.prems have "it = x \<or> it \<in> set (dedup (insert (the (item_get x ''id'')) S) xs)"
      by (simp add: Let_def)
    then show ?thesis
    proof
      assume "it = x"
      then show ?thesis by simp
    next
      assume a: "it \<in> set (dedup (insert (the (item_get x ''id'')) S) xs)"
      from dedup_kept[OF a] have "item_get x ''id'' \<noteq> item_get it ''id''" by auto
      with Cons.IH[OF a] show ?thesis by simp
    qed
  next
    case False
    with Cons.prems have a: "it \<in> set (dedup S xs)" by (auto simp: Let_def)
    from dedup_kept[OF a] False have "item_get x ''id'' \<noteq> item_get it ''id''" by auto
    with Cons.IH[OF a] show ?thesis by simp
  qed
qed

lemma dedup_complete:
  "x \<in> set xs \<Longrightarrow> val_truthy (item_get x ''id'') \<Longrightarrow> the (item_get x ''id'') \<notin> S \<Longrightarrow>
     \<exists>it \<in> set (dedup S xs). item_get it ''id'' = item_get x ''id''"
proof (induction xs arbitrary: S)
  case Nil
  then show ?case by simp
next
  case (Cons y ys)
  show ?case
  proof (cases "val_truthy (item_get y ''id'') \<and> the (item_get y ''id'') \<notin> S")
    case True
    show ?thesis
    proof (cases "item_get y ''id'' = item_get x ''id''")
      case same: True
      with True show ?thesis by (auto simp: Let_def)
    next
      case diff: False
      with Cons.prems have x: "x \<in> set ys" by auto
      have "the (item_get x ''id'') \<noteq> the (item_get y ''id'')"
        using truthy_the_eq[of "item_get x ''id''" "item_get y ''id''"] True Cons.prems(2) diff
        by auto
      with Cons.prems(3) have "the (item_get x ''id'') \<notin> insert (the (item_get y ''id'')) S" by simp
      from Cons.IH[OF x Cons.prems(2) this] True show ?thesis by (auto simp: Let_def)
    qed
  next
    case False
    with Cons.prems have x: "x \<in> set ys" by auto
    from Cons.IH[OF x Cons.prems(2,3)] False show ?thesis by (auto simp: Let_def)
  qed
qed

lemma initial_inv:
  "all_items initial_state = concat (map (page_items parse api fetch) (fetched initial_state))
   \<and> unique_items initial_state = dedup {} (all_items initial_state)"
  by (simp add: initial_state_def)

lemma sample_batch:
  "batch sample_parse no_lookup sample_fetch 5 5 initial_state
     = \<lparr>page = 6, all_items = [record_100 75 10000 2500, record_100 75 10000 2500, record_100 100 10000 0],
            unique_items = [], fetched = [1, 2, 3]\<rparr>"
  by code_simp

lemma sample_dedup:
  "dedup {} [record_100 75 10000 2500, record_100 75 10000 2500, record_100 100 10000 0]
     = [record_100 75 10000 2500]"
  by code_simp

lemma sample_run:
  "batches sample_parse no_lookup sample_fetch 5 5 initial_state
     = Some \<lparr>page = 6, all_items = [record_100 75 10000 2500, record_100 75 10000 2500, record_100 100 10000 0],
            unique_items = [record_100 75 10000 2500], fetched = [1, 2, 3]\<rparr>"
proof -
  define st1 where "st1 = batch sample_parse no_lookup sample_fetch 5 5 initial_state"
  have "batches sample_parse no_lookup sample_fetch 5 5 initial_state
      = batches sample_parse no_lookup sample_fetch 5 5 (st1\<lparr>unique_items := dedup {} (all_items st1)\<rparr>)"
    by (subst batches.simps) (simp add: initial_state_def st1_def Let_def)
  also have "st1\<lparr>unique_items := dedup {} (all_items st1)\<rparr>
      = \<lparr>page = 6, all_items = [record_100 75 10000 2500, record_100 75 10000 2500, record_100 100 10000 0],
            unique_items = [record_100 75 10000 2500], fetched = [1, 2, 3]\<rparr>"
    unfolding st1_def sample_batch by (simp add: sample_dedup del: dedup.simps)
  also have "batches sample_parse no_lookup sample_fetch 5 5 \<dots> = Some \<dots>"
    by (subst batches.simps) simp
  finally show ?thesis .
qed

text \<open>
  C5. When \<open>get_all_discounted_games\<close> returns, the identifiers of the returned
  records are pairwise distinct. The records accumulated are the results of the fetched
  pages in fetch order, and every returned record is, whole, the first of them with its
  identifier; every identifier that occurs among them is kept once.
\<close>

theorem dedup_first_seen:
  assumes "get_all_discounted_games parse api fetch max_pages results_interval = Some r"
  shows "distinct (map (\<lambda>it. item_get it ''id'') r)
     \<and> (\<exists>st. batches parse api fetch max_pages results_interval initial_state = Some st
          \<and> r = unique_items st
          \<and> all_items st = concat (map (page_items parse api fetch) (fetched st))
          \<and> (\<forall>it \<in> set r. find (\<lambda>x. item_get x ''id'' = item_get it ''id'') (all_items st) = Some it)
          \<and> (\<forall>x \<in> set (all_items st). val_truthy (item_get x ''id'') \<longrightarrow>
                (\<exists>it \<in> set r. item_get it ''id'' = item_get x ''id'')))"
proof -
  from assms obtain st where st: "batches parse api fetch max_pages results_interval initial_state = Some st"
    and r: "r = unique_items st"
    by (auto simp: get_all_discounted_games_def)
  from batches_inv[OF st] initial_inv[of parse api fetch]
  have a: "all_items st = concat (map (page_items parse api fetch) (fetched st))"
    and u: "unique_items st = dedup {} (all_items st)" by simp_all
  have "distinct (map (\<lambda>it. item_get it ''id'') r)" unfolding r u by (rule dedup_distinct)
  moreover have "\<forall>it \<in> set r. find (\<lambda>x. item_get x ''id'' = item_get it ''id'') (all_items st) = Some it"
    unfolding r u using dedup_first by blast
  moreover have "\<forall>x \<in> set (all_items st). val_truthy (item_get x ''id'') \<longrightarrow>
                (\<exists>it \<in> set r. item_get it ''id'' = item_get x ''id'')"
    unfolding r u using dedup_complete[of _ "all_items st" "{}"] by simp
  ultimately show ?thesis using st r a by blast
qed

theorem dedup_first_seen_witness:
  "get_all_discounted_games sample_parse no_lookup sample_fetch 5 5 = Some [record_100 75 10000 2500]
   \<and> distinct (map (\<lambda>it. item_get it ''id'') [record_100 75 10000 2500])
   \<and> (\<exists>st. batches sample_parse no_lookup sample_fetch 5 5 initial_state = Some st
          \<and> find (\<lambda>x. item_get x ''id'' = item_get (record_100 75 10000 2500) ''id'') (all_items st)
              = Some (record_100 75 10000 2500))"
proof -
  have g: "get_all_discounted_games sample_parse no_lookup sample_fetch 5 5 = Some [record_100 75 10000 2500]"
    by (simp add: get_all_discounted_games_def sample_run)
  from dedup_first_seen[OF g] obtain st where
    st: "batches sample_parse no_lookup sample_fetch 5 5 initial_state = Some st"
    and f: "\<forall>it \<in> set [record_100 75 10000 2500].
              find (\<lambda>x. item_get x ''id'' = item_get it ''id'') (all_items st) = Some it"
    and d: "distinct (map (\<lambda>it. item_get it ''id'') [record_100 75 10000 2500])"
    by blast
  from f have "find (\<lambda>x. item_get x ''id'' = item_get (record_100 75 10000 2500) ''id'') (all_items st)
              = Some (record_100 75 10000 2500)" by simp
  with g st d show ?thesis by blast
qed

lemma sequential_three:
  assumes "3 \<le> max_pages" and "\<not> terminal parse api fetch 1" and "\<not> terminal parse api fetch 2"
    and "terminal parse api fetch 3"
  shows "sequential_fetch parse api fetch (nat max_pages) 1
     = ([1, 2, 3], page_items parse api fetch 1 @ page_items parse api fetch 2)"
proof -
  from assms(1) have "nat max_pages = Suc (Suc (Suc (nat (max_pages - 3))))" by arith
  with assms(2-4) show ?thesis by simp
qed

lemma controller_run:
  assumes "1 \<le> results_interval"
  shows "\<exists>st. batches parse api fetch max_pages results_interval initial_state = Some st
     \<and> fetched st = fst (sequential_fetch parse api fetch (nat max_pages) 1)
     \<and> unique_items st = dedup {} (snd (sequential_fetch parse api fetch (nat max_pages) 1))"
proof (cases "1 \<le> max_pages")
  case True
  then have m: "max_pages - page initial_state + 1 = int (nat max_pages)"
    by (simp add: initial_state_def)
  from batches_run[OF assms m, of parse api fetch] obtain st where
    st: "batches parse api fetch max_pages results_interval initial_state = Some st"
    and f: "fetched st = fst (sequential_fetch parse api fetch (nat max_pages) 1)"
    and a: "all_items st = snd (sequential_fetch parse api fetch (nat max_pages) 1)"
    and u: "unique_items st = (if nat max_pages = 0 then [] else dedup {} (all_items st))"
    by (auto simp: initial_state_def)
  from True u a have "unique_items st = dedup {} (snd (sequential_fetch parse api fetch (nat max_pages) 1))"
    by simp
  with st f show ?thesis by blast
next
  case False
  then have "batches parse api fetch max_pages results_interval initial_state = Some initial_state"
    by (subst batches.simps) (simp add: initial_state_def)
  moreover from False have "nat max_pages = 0" by simp
  ultimately show ?thesis by (simp add: initial_state_def)
qed

lemma sample_terminal:
  "\<not> terminal sample_parse no_lookup sample_fetch 1 \<and> \<not> terminal sample_parse no_lookup sample_fetch 2
   \<and> terminal sample_parse no_lookup sample_fetch 3"
  by code_simp

lemma batches_needs_progress:
  assumes "batches parse api fetch max_pages results_interval st = Some y"
  shows "\<not> (page st \<le> max_pages \<and> results_interval \<le> 0)"
proof (rule batches.raw_induct[where P = "\<lambda>parse api fetch max_pages results_interval st y.
         \<not> (page st \<le> max_pages \<and> results_interval \<le> 0)", OF _ assms])
  fix f :: "(pystr \<Rightarrow> node list) \<Rightarrow> (pystr \<Rightarrow> price_overview option) \<Rightarrow> (int \<Rightarrow> pystr option)
     \<Rightarrow> int \<Rightarrow> int \<Rightarrow> state \<Rightarrow> state option"
  fix parse api fetch max_pages results_interval st y
  assume IH: "\<And>parse api fetch max_pages results_interval st y.
      f parse api fetch max_pages results_interval st = Some y \<Longrightarrow>
      \<not> (page st \<le> max_pages \<and> results_interval \<le> 0)"
  assume step: "(if page st \<le> max_pages
      then let st1 = batch parse api fetch max_pages (nat results_interval) st
           in f parse api fetch max_pages results_interval
               (st1\<lparr>unique_items := dedup {} (all_items st1)\<rparr>)
      else Some st) = Some y"
  show "\<not> (page st \<le> max_pages \<and> results_interval \<le> 0)"
  proof
    assume a: "page st \<le> max_pages \<and> results_interval \<le> 0"
    then have "nat results_interval = 0" by simp
    with step a have "f parse api fetch max_pages results_interval
        (st\<lparr>unique_items := dedup {} (all_items st)\<rparr>) = Some y"
      by (simp add: Let_def)
    from IH[OF this] a show False by simp
  qed
qed

lemma controller_result:
  assumes "batches parse api fetch max_pages results_interval initial_state = Some st"
  shows "fetched st = fst (sequential_fetch parse api fetch (nat max_pages) 1)
     \<and> unique_items st = dedup {} (snd (sequential_fetch parse api fetch (nat max_pages) 1))"
proof (cases "1 \<le> results_interval")
  case True
  from controller_run[OF True, of parse api fetch max_pages] assms show ?thesis by auto
next
  case False
  with batches_needs_progress[OF assms] have m: "max_pages < 1" by (simp add: initial_state_def)
  then have "batches parse api fetch max_pages results_interval initial_state = Some initial_state"
    by (subst batches.simps) (simp add: initial_state_def)
  with assms have "st = initial_state" by simp
  moreover from m have "nat max_pages = 0" by simp
  ultimately show ?thesis by (simp add: initial_state_def)
qed

text \<open>
  C6. With a batch size of at least 1 the controller returns. Whenever it returns, the
  pages it fetched are those of the specification's run: one at a time from page 1
  upwards, up to \<open>max_pages\<close>, ending at the first page whose fetch fails or that
  yields no item; and it returns the deduplicated items of the pages before that one. In
  particular, when pages 1 and 2 yield items and page 3 yields none (of at least three
  pages), the pages fetched are 1, 2 and 3 and the result is the unique items of pages 1
  and 2.
\<close>

theorem controller_stops_at_terminal_page:
  "(1 \<le> results_interval \<longrightarrow>
      (\<exists>st. batches parse api fetch max_pages results_interval initial_state = Some st))
   \<and> (batches parse api fetch max_pages results_interval initial_state = Some st \<longrightarrow>
        fetched st = fst (sequential_fetch parse api fetch (nat max_pages) 1)
        \<and> get_all_discounted_games parse api fetch max_pages results_interval
            = Some (dedup {} (snd (sequential_fetch parse api fetch (nat max_pages) 1))))
   \<and> (batches parse api fetch max_pages results_interval initial_state = Some st
        \<and> 3 \<le> max_pages \<and> \<not> terminal parse api fetch 1 \<and> \<not> terminal parse api fetch 2
        \<and> terminal parse api fetch 3 \<longrightarrow>
        fetched st = [1, 2, 3]
        \<and> get_all_discounted_games parse api fetch max_pages results_interval
            = Some (dedup {} (page_items parse api fetch 1 @ page_items parse api fetch 2)))"
proof (intro conjI impI)
  assume "1 \<le> results_interval"
  from controller_run[OF this, of parse api fetch max_pages]
  show "\<exists>st. batches parse api fetch max_pages results_interval initial_state = Some st" by blast
next
  assume st: "batches parse api fetch max_pages results_interval initial_state = Some st"
  from controller_result[OF st]
  show "fetched st = fst (sequential_fetch parse api fetch (nat max_pages) 1)"
    and "get_all_discounted_games parse api fetch max_pages results_interval
            = Some (dedup {} (snd (sequential_fetch parse api fetch (nat max_pages) 1)))"
    using st by (simp_all add: get_all_discounted_games_def)
next
  assume a: "batches parse api fetch max_pages results_interval initial_state = Some st
        \<and> 3 \<le> max_pages \<and> \<not> terminal parse api fetch 1 \<and> \<not> terminal parse api fetch 2
        \<and> terminal parse api fetch 3"
  then have st: "batches parse api fetch max_pages results_interval initial_state = Some st" by blast
  from a have "sequential_fetch parse api fetch (nat max_pages) 1
     = ([1, 2, 3], page_items parse api fetch 1 @ page_items parse api fetch 2)"
    by (intro sequential_three) simp_all
  with controller_result[OF st] st
  show "fetched st = [1, 2, 3]"
    and "get_all_discounted_games parse api fetch max_pages results_interval
            = Some (dedup {} (page_items parse api fetch 1 @ page_items parse api fetch 2))"
    by (simp_all add: get_all_discounted_games_def)
qed

theorem controller_stops_at_terminal_page_witness:
  "(1::int) \<le> 5 \<and> (3::int) \<le> 5
   \<and> batches sample_parse no_lookup sample_fetch 5 5 initial_state
       = Some \<lparr>page = 6, all_items = [record_100 75 10000 2500, record_100 75 10000 2500, record_100 100 10000 0],
            unique_items = [record_100 75 10000 2500], fetched = [1, 2, 3]\<rparr>
   \<and> \<not> terminal sample_parse no_lookup sample_fetch 1 \<and> \<not> terminal sample_parse no_lookup sample_fetch 2
   \<and> terminal sample_parse no_lookup sample_fetch 3
   \<and> get_all_discounted_games sample_parse no_lookup sample_fetch 5 5
       = Some (dedup {} (page_items sample_parse no_lookup sample_fetch 1
                          @ page_items sample_parse no_lookup sample_fetch 2))"
proof -
  have three: "(3::int) \<le> 5" by simp
  have "get_all_discounted_games sample_parse no_lookup sample_fetch 5 5
       = Some (dedup {} (page_items sample_parse no_lookup sample_fetch 1
                          @ page_items sample_parse no_lookup sample_fetch 2))"
    using controller_stops_at_terminal_page[of 5 sample_parse no_lookup sample_fetch 5
      "\<lparr>page = 6, all_items = [record_100 75 10000 2500, record_100 75 10000 2500, record_100 100 10000 0],
            unique_items = [record_100 75 10000 2500], fetched = [1, 2, 3]\<rparr>"]
      sample_run sample_terminal three
    by blast
  with sample_run sample_terminal show ?thesis by simp
qed

section \<open>Formatting a price and parsing it back\<close>

subsection \<open>The error of rounding\<close>

lemma bitlen_ge_pow: assumes "2 ^ j \<le> n" shows "int j + 1 \<le> bitlen n"
proof -
  have n: "0 < n" using assms by (smt (verit) zero_less_power)
  from bitlen_bounds[OF n] have "n < 2 ^ nat (bitlen n)" by simp
  with assms have "(2::int) ^ j < 2 ^ nat (bitlen n)" by linarith
  then have "j < nat (bitlen n)" by simp
  then show ?thesis by linarith
qed

lemma rnd_rel:
  assumes "pow2 (- 1022) \<le> q" and "q < pow2 1023"
  shows "\<exists>r. rnd q = Fin r \<and> \<bar>r - q\<bar> \<le> q / 2 ^ 53"
proof -
  have q: "0 < q" using assms(1) pow2_pos[of "- 1022"] by linarith
  define e where "e = ilog2 q"
  have e1: "- 1022 \<le> e" unfolding e_def using q assms(1) by (rule ilog2_ge)
  have e2: "e < 1023" unfolding e_def using q assms(2) by (rule ilog2_le)
  define k where "k = e - 52"
  define n where "n = round_half_even (q / pow2 k)"
  have kk: "max (ilog2 q) (- 1022) - 52 = k" using e1 by (simp add: k_def e_def)
  have "q < pow2 (e + 1)" unfolding e_def using q by (rule ilog2_bounds)
  also have "pow2 (e + 1) = pow2 53 * pow2 k"
  proof -
    have "e + 1 = 53 + k" by (simp add: k_def)
    then show ?thesis by (simp only: pow2_add)
  qed
  finally have "q / pow2 k < pow2 53" using pow2_pos[of k] by (simp add: pos_divide_less_eq)
  then have "q / pow2 k \<le> of_int (2 ^ 53)" by (simp add: pow2_def)
  then have "n \<le> 2 ^ 53" unfolding n_def by (rule rhe_le_int)
  then have "bitlen n \<le> 54" using bitlen_le_pow[of n 53] by simp
  then have "\<not> 1024 < k + bitlen n" using e2 by (simp add: k_def)
  moreover have aq: "\<bar>q\<bar> = q" using q by simp
  ultimately have r: "rnd q = Fin (of_int n * pow2 k)"
    using q unfolding rnd_def Let_def aq kk n_def by simp
  have "\<bar>of_int n - q / pow2 k\<bar> \<le> 1 / 2" unfolding n_def by (rule rhe_err)
  then have "\<bar>of_int n - q / pow2 k\<bar> * pow2 k \<le> 1 / 2 * pow2 k"
    using pow2_pos[of k] by (intro mult_right_mono) simp_all
  moreover have "\<bar>of_int n - q / pow2 k\<bar> * pow2 k = \<bar>of_int n * pow2 k - q\<bar>"
  proof -
    have "\<bar>of_int n - q / pow2 k\<bar> * pow2 k = \<bar>(of_int n - q / pow2 k) * pow2 k\<bar>"
      using pow2_pos[of k] by (simp add: abs_mult)
    also have "(of_int n - q / pow2 k) * pow2 k = of_int n * pow2 k - q"
      using pow2_pos[of k] by (simp add: field_simps)
    finally show ?thesis .
  qed
  ultimately have "\<bar>of_int n * pow2 k - q\<bar> \<le> pow2 k / 2" by simp
  also have "pow2 k / 2 = pow2 e / 2 ^ 53"
  proof -
    have "e = k + 52" by (simp add: k_def)
    then have "pow2 e = pow2 (k + 52)" by simp
    also have "\<dots> = pow2 k * pow2 52" by (rule pow2_add)
    finally show ?thesis by (simp add: pow2_def)
  qed
  also have "\<dots> \<le> q / 2 ^ 53"
    using ilog2_bounds(1)[OF q] by (simp add: e_def divide_right_mono)
  finally show ?thesis using r by blast
qed

lemma rnd_overflow:
  assumes "pow2 1024 \<le> q"
  shows "rnd q = PInf"
proof -
  have q: "0 < q" using assms pow2_pos[of 1024] by linarith
  define e where "e = ilog2 q"
  have e1: "1024 \<le> e" unfolding e_def using q assms by (rule ilog2_ge)
  define k where "k = e - 52"
  define n where "n = round_half_even (q / pow2 k)"
  have kk: "max (ilog2 q) (- 1022) - 52 = k" using e1 by (simp add: k_def e_def)
  have "e = 52 + k" by (simp add: k_def)
  then have "pow2 52 * pow2 k = pow2 e" by (simp only: pow2_add)
  also have "\<dots> \<le> q" unfolding e_def using q by (rule ilog2_bounds)
  finally have "pow2 52 \<le> q / pow2 k" using pow2_pos[of k] by (simp add: pos_le_divide_eq)
  then have "of_int (2 ^ 52) \<le> q / pow2 k" by (simp add: pow2_def)
  then have "2 ^ 52 \<le> n" unfolding n_def by (rule rhe_ge_int)
  then have "53 \<le> bitlen n" using bitlen_ge_pow[of 52 n] by simp
  then have "1024 < k + bitlen n" using e1 by (simp add: k_def)
  moreover have aq: "\<bar>q\<bar> = q" using q by simp
  ultimately show ?thesis using q unfolding rnd_def Let_def aq kk n_def by simp
qed

subsection \<open>The formatted text\<close>

lemma digits_of_digits:
  "0 \<le> n \<Longrightarrow> list_all is_digit (digits_of n) \<and> digits_of n \<noteq> []"
proof (induction n rule: digits_of.induct)
  case (1 n)
  show ?case
  proof (cases "n < 10")
    case True
    then have "digits_of n = [48 + n]" by (subst digits_of.simps) simp
    with 1(2) True show ?thesis by (simp add: is_digit_def)
  next
    case False
    then have d: "digits_of n = digits_of (n div 10) @ [48 + n mod 10]"
      by (subst digits_of.simps) simp
    from 1 False have "list_all is_digit (digits_of (n div 10))" by simp
    moreover have "is_digit (48 + n mod 10)" by (simp add: is_digit_def)
    ultimately show ?thesis by (simp add: d)
  qed
qed

lemma digits_val_snoc: "digits_val (ds @ [c]) = 10 * digits_val ds + digit_val c"
  by (simp add: digits_val_def)

lemma digits_val_digits_of: "0 \<le> n \<Longrightarrow> digits_val (digits_of n) = n"
proof (induction n rule: digits_of.induct)
  case (1 n)
  show ?case
  proof (cases "n < 10")
    case True
    then have "digits_of n = [48 + n]" by (subst digits_of.simps) simp
    then show ?thesis by (simp add: digits_val_def digit_val_def)
  next
    case False
    then have d: "digits_of n = digits_of (n div 10) @ [48 + n mod 10]"
      by (subst digits_of.simps) simp
    from 1 False have "digits_val (digits_of (n div 10)) = n div 10" by simp
    then show ?thesis by (simp add: d digits_val_snoc digit_val_def)
  qed
qed

lemma takeWhile_digits:
  assumes "list_all is_digit ds" and "\<not> is_digit c"
  shows "takeWhile is_digit (ds @ c # rest) = ds" and "dropWhile is_digit (ds @ c # rest) = c # rest"
  using assms by (induction ds) simp_all

lemma takeWhile_digits_end:
  assumes "list_all is_digit ds"
  shows "takeWhile is_digit ds = ds" and "dropWhile is_digit ds = []"
  using assms by (induction ds) simp_all

lemma replace_char_absent: "a \<notin> set s \<Longrightarrow> replace_char a b s = s"
  by (induction s) (auto simp: replace_char_def)

lemma digit_not: "is_digit c \<Longrightarrow> c \<noteq> 160 \<and> c \<noteq> 44 \<and> c \<noteq> lira \<and> \<not> is_space c"
  by (auto simp: is_digit_def lira_def is_space_def)

lemma digits_set: "list_all is_digit ds \<Longrightarrow> c \<in> set ds \<Longrightarrow> is_digit c"
  by (simp add: list_all_iff)


lemma token_number:
  assumes ds: "list_all is_digit ds" "ds \<noteq> []" and u: "is_digit u" and v: "is_digit v"
  shows "match_number (ds @ [46, u, v]) = Some (ds @ [46, u, v], length ds + 3)"
proof -
  have n46: "\<not> is_digit 46" by (simp add: is_digit_def)
  have t: "takeWhile is_digit (ds @ 46 # [u, v]) = ds"
    and d: "dropWhile is_digit (ds @ 46 # [u, v]) = 46 # [u, v]"
    using takeWhile_digits[OF ds(1) n46] by simp_all
  show ?thesis
    using ds(2) u v by (simp add: match_number_def Let_def t d)
qed

lemma token_pattern:
  assumes ds: "list_all is_digit ds" "ds \<noteq> []" and u: "is_digit u" and v: "is_digit v"
  shows "match_price_pattern (ds @ [46, u, v]) = Some (ds @ [46, u, v], length ds + 3)"
proof -
  from ds(2) obtain c cs where c: "ds = c # cs" by (cases ds) simp_all
  with ds(1) have "is_digit c" by simp
  then have "c \<noteq> lira" using digit_not by blast
  then have k: "(case ds @ [46, u, v] of [] \<Rightarrow> 0 | c # t \<Rightarrow> if c = lira then 1 + length (takeWhile is_space t) else 0) = 0"
    by (simp add: c)
  show ?thesis
    unfolding match_price_pattern_def Let_def k
    using token_number[OF assms] by simp
qed

lemma token_findall:
  assumes ds: "list_all is_digit ds" "ds \<noteq> []" and u: "is_digit u" and v: "is_digit v"
  shows "\<exists>ms. findall match_price_pattern (36 # ds @ [46, u, v]) = (ds @ [46, u, v]) # ms"
proof -
  have "takeWhile is_digit (36 # ds @ [46, u, v]) = []" by (simp add: is_digit_def)
  then have "match_number (36 # ds @ [46, u, v]) = None" by (simp add: match_number_def Let_def)
  then have n: "match_price_pattern (36 # ds @ [46, u, v]) = None"
    by (simp add: match_price_pattern_def Let_def lira_def)
  from ds(2) obtain c cs where c: "ds = c # cs" by (cases ds) simp_all
  have "findall match_price_pattern (36 # ds @ [46, u, v])
      = findall_go match_price_pattern 0 (ds @ [46, u, v])"
    by (simp add: findall_def n)
  also have "\<dots> = (ds @ [46, u, v]) # findall_go match_price_pattern (length ds + 3 - 1) (cs @ [46, u, v])"
    using token_pattern[OF assms] by (simp add: c)
  finally show ?thesis by blast
qed

lemma token_float:
  assumes ds: "list_all is_digit ds" "ds \<noteq> []" and u: "is_digit u" and v: "is_digit v"
  shows "float_of_decimal (replace_char 44 [46] (ds @ [46, u, v]))
     = Some (rnd (of_int (digits_val (ds @ [u, v])) / 100))"
proof -
  have "44 \<notin> set (ds @ [46, u, v])"
    using ds(1) u v digit_not digits_set[OF ds(1)] by auto
  then have r: "replace_char 44 [46] (ds @ [46, u, v]) = ds @ [46, u, v]"
    by (rule replace_char_absent)
  have n46: "\<not> is_digit 46" by (simp add: is_digit_def)
  have t: "takeWhile is_digit (ds @ 46 # [u, v]) = ds"
    and d: "dropWhile is_digit (ds @ 46 # [u, v]) = 46 # [u, v]"
    using takeWhile_digits[OF ds(1) n46] by simp_all
  show ?thesis
    using ds(2) u v by (simp add: r float_of_decimal_def Let_def t d)
qed

lemma token_strip:
  assumes ds: "list_all is_digit ds" and v: "is_digit v" and u: "is_digit u"
  shows "strip (replace_char nbsp [32] (36 # ds @ [46, u, v])) = 36 # ds @ [46, u, v]"
proof -
  have "nbsp \<notin> set (36 # ds @ [46, u, v])"
    using u v digit_not digits_set[OF ds] by (auto simp: nbsp_def)
  then have r: "replace_char nbsp [32] (36 # ds @ [46, u, v]) = 36 # ds @ [46, u, v]"
    by (rule replace_char_absent)
  have "\<not> is_space 36" by (simp add: is_space_def)
  moreover have "\<not> is_space v" using v digit_not by blast
  ultimately show ?thesis by (simp add: r strip_def)
qed

lemma parse_token:
  assumes ds: "list_all is_digit ds" "ds \<noteq> []" and u: "is_digit u" and v: "is_digit v"
  shows "extract_price_from_text (36 # ds @ [46, u, v])
     = Inr (F (fmul (rnd (of_int (digits_val (ds @ [u, v])) / 100)) (Fin 100)))"
proof -
  from token_findall[OF assms] obtain ms where
    m: "findall match_price_pattern (36 # ds @ [46, u, v]) = (ds @ [46, u, v]) # ms" by blast
  have "num_mul (F x) (I 100) = Inr (F (fmul x (Fin 100)))" for x
    by (simp add: num_mul_def to_float_def rnd_100)
  then show ?thesis
    unfolding extract_price_from_text_def Let_def token_strip[OF ds(1) v u] m
    by (simp add: token_float[OF assms])
qed

subsection \<open>The accumulated error\<close>

lemma near_trans:
  fixes x y z a b :: rat
  assumes "0 \<le> x" and "\<bar>y - x\<bar> \<le> a * x" and "\<bar>z - y\<bar> \<le> b * y" and "0 \<le> b"
  shows "\<bar>z - x\<bar> \<le> (a + b + a * b) * x"
proof -
  have "y \<le> x + a * x" using assms(2) by linarith
  then have "b * y \<le> b * (x + a * x)" using assms(4) by (rule mult_left_mono)
  moreover have "\<bar>z - x\<bar> \<le> \<bar>z - y\<bar> + \<bar>y - x\<bar>" by linarith
  ultimately have "\<bar>z - x\<bar> \<le> b * (x + a * x) + a * x" using assms(2,3) by linarith
  also have "\<dots> = (a + b + a * b) * x" by (simp add: algebra_simps)
  finally show ?thesis .
qed

lemma near_bounds:
  fixes x y c :: rat
  assumes "0 \<le> x" and "\<bar>y - x\<bar> \<le> c * x" and "c \<le> 1 / 2"
  shows "x / 2 \<le> y" and "y \<le> 2 * x"
proof -
  have "c * x \<le> 1 / 2 * x" using assms(1,3) by (rule mult_right_mono[rotated])
  with assms(2) show "x / 2 \<le> y" and "y \<le> 2 * x" using assms(1) by linarith+
qed

lemma near_scale:
  fixes q r e :: rat
  assumes "\<bar>r - q / 100\<bar> \<le> e * (q / 100)"
  shows "\<bar>r * 100 - q\<bar> \<le> e * q"
proof -
  have "r * 100 - q = (r - q / 100) * 100" by (simp add: algebra_simps)
  then have "\<bar>r * 100 - q\<bar> = \<bar>r - q / 100\<bar> * 100" by (simp only: abs_mult abs_numeral)
  also have "\<dots> \<le> e * (q / 100) * 100" using assms by simp
  finally show ?thesis by simp
qed

lemma rhe_near:
  assumes "\<bar>y - of_int n\<bar> \<le> d * of_int n"
  shows "\<bar>of_int (round_half_even y) - of_int n\<bar> \<le> 2 * (d * of_int n)"
proof (cases "d * of_int n < 1 / 2")
  case True
  have "\<bar>of_int (round_half_even y) - y\<bar> \<le> 1 / 2" by (rule rhe_err)
  with assms True have "\<bar>(of_int (round_half_even y) :: rat) - of_int n\<bar> < 1" by linarith
  then have "\<bar>(of_int (round_half_even y - n) :: rat)\<bar> < 1" by simp
  then have "\<bar>round_half_even y - n\<bar> < 1" by (simp only: of_int_abs[symmetric] of_int_less_1_iff)
  then have "round_half_even y = n" by simp
  moreover have "0 \<le> d * of_int n" using assms by linarith
  ultimately show ?thesis by simp
next
  case False
  have "\<bar>of_int (round_half_even y) - y\<bar> \<le> 1 / 2" by (rule rhe_err)
  with assms False show ?thesis by linarith
qed

lemma rnd_near:
  assumes "1 / 256 \<le> q" and "q \<le> 2 ^ 1002"
  shows "\<exists>r. rnd q = Fin r \<and> \<bar>r - q\<bar> \<le> (1 / 2 ^ 53) * q"
proof -
  have "pow2 (- 1022) \<le> 1 / 256" by (simp add: pow2_def)
  with assms(1) have "pow2 (- 1022) \<le> q" by linarith
  moreover have "(2::rat) ^ 1002 < pow2 1023" by (simp add: pow2_def)
  with assms(2) have "q < pow2 1023" by linarith
  ultimately show ?thesis using rnd_rel[of q] by simp
qed


lemma round_trip_value:
  assumes "1 \<le> x" and "x < 2 ^ 1000"
  shows "\<exists>r1 p m r2 r. rnd (of_int x) = Fin r1 \<and> rnd (r1 / 100) = Fin p \<and> 0 \<le> p
     \<and> m = round_half_even (p * 100) \<and> 0 \<le> m \<and> rnd (of_int m / 100) = Fin r2
     \<and> rnd (r2 * 100) = Fin r \<and> \<bar>r - of_int x\<bar> \<le> of_int x / 2 ^ 50"
proof -
  define X :: rat where "X = of_int x"
  define e :: rat where "e = 1 / 2 ^ 53"
  define c1 where "c1 = e + e + e * e"
  define c2 where "c2 = 2 * c1"
  define c3 where "c3 = c2 + e + c2 * e"
  define c4 where "c4 = c3 + e + c3 * e"
  have e0: "0 \<le> e" and eh: "e \<le> 1 / 2" by (simp_all add: e_def)
  have c1h: "c1 \<le> 1 / 2" by (simp add: c1_def e_def)
  have c2h: "c2 \<le> 1 / 2" by (simp add: c2_def c1_def e_def)
  have c3h: "c3 \<le> 1 / 2" by (simp add: c3_def c2_def c1_def e_def)
  have c4h: "c4 \<le> 1 / 2 ^ 50" by (simp add: c4_def c3_def c2_def c1_def e_def)
  have X1: "1 \<le> X" using assms(1) by (simp add: X_def)
  have "(of_int x :: rat) < of_int (2 ^ 1000)" using assms(2) by (simp only: of_int_less_iff)
  then have X2: "X < 2 ^ 1000" by (simp add: X_def)
  have X0: "0 \<le> X" using X1 by simp
  \<comment> \<open>the conversion of the integer\<close>
  have "1 / 256 \<le> X" "X \<le> 2 ^ 1002" using X1 X2 by simp_all
  from rnd_near[OF this] obtain r1 where r1: "rnd X = Fin r1" "\<bar>r1 - X\<bar> \<le> e * X"
    by (auto simp: e_def)
  from near_bounds[OF X0 r1(2) eh] have r1b: "X / 2 \<le> r1" "r1 \<le> 2 * X" .
  \<comment> \<open>the division by 100\<close>
  have "1 / 256 \<le> r1 / 100" "r1 / 100 \<le> 2 ^ 1002" using r1b X1 X2 by simp_all
  from rnd_near[OF this] obtain p where p: "rnd (r1 / 100) = Fin p"
    "\<bar>p - r1 / 100\<bar> \<le> e * (r1 / 100)" by (auto simp: e_def)
  have r10: "0 \<le> r1" using r1b X0 by simp
  have y1: "\<bar>p * 100 - r1\<bar> \<le> e * r1" using p(2) by (rule near_scale)
  from near_bounds[OF r10 y1 eh] have "0 \<le> p * 100" using r10 by simp
  then have p0: "0 \<le> p" by simp
  from near_trans[OF X0 r1(2) y1 e0] have y: "\<bar>p * 100 - X\<bar> \<le> c1 * X" by (simp add: c1_def)
  \<comment> \<open>the two decimals\<close>
  define m where "m = round_half_even (p * 100)"
  from rhe_near[of "p * 100" x c1] y
  have mX: "\<bar>of_int m - X\<bar> \<le> c2 * X" by (simp add: m_def X_def c2_def)
  from near_bounds[OF X0 mX c2h] have mb: "X / 2 \<le> of_int m" "of_int m \<le> 2 * X" .
  have "(0::rat) < of_int m" using mb(1) X1 by linarith
  then have m0: "0 \<le> m" by simp
  have M0: "(0::rat) \<le> of_int m" using m0 by simp
  \<comment> \<open>parsing the decimal\<close>
  have "1 / 256 \<le> (of_int m :: rat) / 100" "(of_int m :: rat) / 100 \<le> 2 ^ 1002"
    using mb X1 X2 by simp_all
  from rnd_near[OF this] obtain r2 where r2: "rnd (of_int m / 100) = Fin r2"
    "\<bar>r2 - of_int m / 100\<bar> \<le> e * (of_int m / 100)" by (auto simp: e_def)
  have z1: "\<bar>r2 * 100 - of_int m\<bar> \<le> e * of_int m" using r2(2) by (rule near_scale)
  from near_trans[OF X0 mX z1 e0] have z: "\<bar>r2 * 100 - X\<bar> \<le> c3 * X" by (simp add: c3_def)
  from near_bounds[OF X0 z c3h] have zb: "X / 2 \<le> r2 * 100" "r2 * 100 \<le> 2 * X" .
  \<comment> \<open>the product with 100\<close>
  have "1 / 256 \<le> r2 * 100" "r2 * 100 \<le> 2 ^ 1002" using zb X1 X2 by simp_all
  from rnd_near[OF this] obtain r where r: "rnd (r2 * 100) = Fin r"
    "\<bar>r - r2 * 100\<bar> \<le> e * (r2 * 100)" by (auto simp: e_def)
  from near_trans[OF X0 z r(2) e0] have "\<bar>r - X\<bar> \<le> c4 * X" by (simp add: c4_def)
  also have "c4 * X \<le> 1 / 2 ^ 50 * X" using c4h X0 by (rule mult_right_mono)
  finally have "\<bar>r - X\<bar> \<le> X / 2 ^ 50" by simp
  with r1(1) p(1) p0 m0 r2(1) r(1) show ?thesis unfolding X_def m_def by blast
qed

lemma format_2f_nonneg:
  assumes "0 \<le> p"
  shows "format_2f p = digits_of (round_half_even (p * 100) div 100)
     @ [46, 48 + (round_half_even (p * 100) mod 100) div 10,
            48 + (round_half_even (p * 100) mod 100) mod 10]"
  using assms by (simp add: format_2f_def Let_def)

lemma two_decimals_value:
  assumes "0 \<le> m"
  shows "digits_val (digits_of (m div 100) @ [48 + (m mod 100) div 10, 48 + (m mod 100) mod 10]) = m"
proof -
  have "0 \<le> m div 100" using assms by simp
  then have d: "digits_val (digits_of (m div 100)) = m div 100" by (rule digits_val_digits_of)
  have "digits_of (m div 100) @ [48 + (m mod 100) div 10, 48 + (m mod 100) mod 10]
      = (digits_of (m div 100) @ [48 + (m mod 100) div 10]) @ [48 + (m mod 100) mod 10]" by simp
  then have "digits_val (digits_of (m div 100) @ [48 + (m mod 100) div 10, 48 + (m mod 100) mod 10])
      = 10 * (10 * (m div 100) + (m mod 100) div 10) + (m mod 100) mod 10"
    by (simp only: digits_val_snoc d) (simp add: digit_val_def)
  also have "\<dots> = m" by presburger
  finally show ?thesis .
qed

text \<open>
  An amount of \<open>2 ^ 1024\<close> minor units is too large for a float: \<open>format_price\<close>
  raises \<open>OverflowError\<close>, which its handler does not catch, and there is no text to
  parse.
\<close>

theorem format_price_overflow:
  "format_price (VInt (2 ^ 1024)) = Inl OverflowError"
proof -
  have "pow2 1024 \<le> of_int (2 ^ 1024)" by (simp add: pow2_def)
  then have "rnd (of_int (2 ^ 1024)) = PInf" by (rule rnd_overflow)
  then have "float_of_int (2 ^ 1024) = Inl OverflowError" by (simp add: float_of_int_def)
  then show ?thesis by (simp add: format_price_def ebind_def)
qed

text \<open>
  C9, as the code has it. For every integer amount \<open>x\<close> with \<open>0 < x < 2 ^ 1000\<close>,
  \<open>format_price\<close> returns a text, and \<open>extract_price_from_text\<close> on that text
  returns a float within \<open>x / 2 ^ 50\<close> of \<open>x\<close>. The float need not be \<open>x\<close>:
  for \<open>x = 29\<close> it is the float just below 29.
\<close>

theorem format_parse_round_trip:
  assumes "0 < x" and "x < 2 ^ 1000"
  shows "\<exists>s r. format_price (VInt x) = Inr s \<and> extract_price_from_text s = Inr (F (Fin r))
     \<and> \<bar>r - of_int x\<bar> \<le> of_int x / 2 ^ 50"
proof -
  from assms have "1 \<le> x" by simp
  from round_trip_value[OF this assms(2)] obtain r1 p m r2 r where
    r1: "rnd (of_int x) = Fin r1" and p: "rnd (r1 / 100) = Fin p" and p0: "0 \<le> p"
    and m: "m = round_half_even (p * 100)" and m0: "0 \<le> m"
    and r2: "rnd (of_int m / 100) = Fin r2" and r: "rnd (r2 * 100) = Fin r"
    and b: "\<bar>r - of_int x\<bar> \<le> of_int x / 2 ^ 50"
    by blast
  define ds where "ds = digits_of (m div 100)"
  define u where "u = 48 + (m mod 100) div 10"
  define v where "v = 48 + (m mod 100) mod 10"
  have "0 \<le> m div 100" using m0 by simp
  from digits_of_digits[OF this] have ds: "list_all is_digit ds" "ds \<noteq> []" by (simp_all add: ds_def)
  have "0 \<le> (m mod 100) div 10 \<and> (m mod 100) div 10 \<le> 9" by presburger
  then have u: "is_digit u" by (simp add: u_def is_digit_def)
  have v: "is_digit v" by (simp add: v_def is_digit_def)
  have f: "format_price (VInt x) = Inr (36 # ds @ [46, u, v])"
    using assms(1) r1 p format_2f_nonneg[OF p0]
    by (simp add: format_price_def float_of_int_def ebind_def fdiv_def m ds_def u_def v_def)
  have "digits_val (ds @ [u, v]) = m" unfolding ds_def u_def v_def using m0 by (rule two_decimals_value)
  with parse_token[OF ds u v] r2 r
  have "extract_price_from_text (36 # ds @ [46, u, v]) = Inr (F (Fin r))"
    by (simp add: fmul_def)
  with f b show ?thesis by blast
qed

theorem format_parse_round_trip_witness:
  "(0::int) < 29 \<and> (29::int) < 2 ^ 1000
   \<and> format_price (VInt 29) = Inr (ascii ''$0.29'')
   \<and> extract_price_from_text (ascii ''$0.29'') = Inr (F (Fin (8162774324609023 / 281474976710656)))
   \<and> (\<exists>s r. format_price (VInt 29) = Inr s \<and> extract_price_from_text s = Inr (F (Fin r))
         \<and> \<bar>r - of_int 29\<bar> \<le> of_int 29 / 2 ^ 50)"
proof -
  have a: "(0::int) < 29" "(29::int) < 2 ^ 1000" by simp_all
  have f: "format_price (VInt 29) = Inr (ascii ''$0.29'')" by code_simp
  have e: "extract_price_from_text (ascii ''$0.29'') = Inr (F (Fin (8162774324609023 / 281474976710656)))"
    by code_simp
  from a f e format_parse_round_trip[OF a] show ?thesis by blast
qed

end
